theory Spec2Isabelle
  imports Complex_Main "HOL-Library.Word"
begin

section \<open>JavaScript strings\<close>

text \<open>
  A JavaScript string is a sequence of 16-bit code units. The regular expressions of
  \<^verbatim>\<open>public/script.js\<close> carry neither the \<^verbatim>\<open>u\<close> nor the \<^verbatim>\<open>s\<close> flag, so they work on
  code units, and \<^verbatim>\<open>.\<close> matches every code unit except the four line terminators.
\<close>

type_synonym code_unit = "16 word"
type_synonym jsstring = "code_unit list"

definition js :: "string \<Rightarrow> jsstring" where
  "js s = map of_char s"

definition AMP :: code_unit where "AMP = 0x26"
definition LT :: code_unit where "LT = 0x3C"
definition GT :: code_unit where "GT = 0x3E"
definition STAR :: code_unit where "STAR = 0x2A"
definition HYPHEN :: code_unit where "HYPHEN = 0x2D"
definition PERIOD :: code_unit where "PERIOD = 0x2E"
definition NEWLINE :: code_unit where "NEWLINE = 0x0A"

text \<open>ECMAScript \<^verbatim>\<open>LineTerminator\<close>: LF, CR, LS, PS.\<close>

definition is_line_terminator :: "code_unit \<Rightarrow> bool" where
  "is_line_terminator c = (c = 0x0A \<or> c = 0x0D \<or> c = 0x2028 \<or> c = 0x2029)"

text \<open>
  The class \<^verbatim>\<open>\s\<close>, which is also what \<^verbatim>\<open>String.prototype.trim\<close> strips:
  \<^verbatim>\<open>WhiteSpace\<close> (TAB, VT, FF, ZWNBSP and the space separators) and \<^verbatim>\<open>LineTerminator\<close>.
\<close>

definition is_white_space :: "code_unit \<Rightarrow> bool" where
  "is_white_space c =
     (c = 0x09 \<or> c = 0x0B \<or> c = 0x0C \<or> c = 0x20 \<or> c = 0xA0 \<or> c = 0x1680 \<or>
      (0x2000 \<le> c \<and> c \<le> 0x200A) \<or> c = 0x202F \<or> c = 0x205F \<or> c = 0x3000 \<or>
      c = 0xFEFF \<or> is_line_terminator c)"

text \<open>The class \<^verbatim>\<open>\d\<close>: the ten ASCII digits.\<close>

definition is_digit :: "code_unit \<Rightarrow> bool" where
  "is_digit c = (0x30 \<le> c \<and> c \<le> 0x39)"

text \<open>\<^verbatim>\<open>s.trim()\<close>\<close>

definition trim :: "jsstring \<Rightarrow> jsstring" where
  "trim s = rev (dropWhile is_white_space (rev (dropWhile is_white_space s)))"

text \<open>\<^verbatim>\<open>s.includes(sub)\<close>: \<open>sub\<close> occurs in \<open>s\<close> as a contiguous block.\<close>

fun str_includes :: "jsstring \<Rightarrow> jsstring \<Rightarrow> bool" where
  "str_includes [] sub = (sub = [])"
| "str_includes (c # cs) sub = (take (length sub) (c # cs) = sub \<or> str_includes cs sub)"

text \<open>
  \<^verbatim>\<open>s.split('\n')\<close>: the pieces between the line feeds. The result is never the empty
  list (the empty string gives one empty line), so the first branch of the case below is
  never taken.
\<close>

fun split_lines :: "jsstring \<Rightarrow> jsstring list" where
  "split_lines [] = [[]]"
| "split_lines (c # cs) =
     (if c = NEWLINE then [] # split_lines cs
      else (case split_lines cs of [] \<Rightarrow> [[c]] | l # ls \<Rightarrow> (c # l) # ls))"

section \<open>Global regular-expression replacement\<close>

text \<open>
  \<^verbatim>\<open>s.replace(/c/g, r)\<close> for a pattern that is one literal code unit and a replacement
  without \<^verbatim>\<open>$\<close>: every occurrence is replaced.
\<close>

definition replace_unit :: "code_unit \<Rightarrow> jsstring \<Rightarrow> jsstring \<Rightarrow> jsstring" where
  "replace_unit c r s = concat (map (\<lambda>x. if x = c then r else [x]) s)"

text \<open>
  The general case, \<^verbatim>\<open>s.replace(/re/g, '...$1...')\<close>. A matcher answers whether the
  pattern matches at the current position (it is given the code unit before that
  position, which \<^verbatim>\<open>^\<close> looks at, and the text from the position on) and returns capture
  group 1 with the text after the match. The scan tries the positions from left to right:
  where the pattern does not match, the code unit is copied and the scan moves one
  position on; where it matches, the replacement is emitted and the scan resumes after
  the match (after an empty match, one code unit further on, as \<^verbatim>\<open>lastIndex\<close> is
  advanced).
\<close>

type_synonym matcher = "code_unit option \<Rightarrow> jsstring \<Rightarrow> (jsstring \<times> jsstring) option"

function replace_global ::
  "matcher \<Rightarrow> (jsstring \<Rightarrow> jsstring) \<Rightarrow> code_unit option \<Rightarrow> jsstring \<Rightarrow> jsstring" where
  "replace_global m repl prev [] =
     (case m prev [] of None \<Rightarrow> [] | Some (g, rest) \<Rightarrow> repl g)"
| "replace_global m repl prev (c # cs) =
     (case m prev (c # cs) of
        None \<Rightarrow> c # replace_global m repl (Some c) cs
      | Some (g, rest) \<Rightarrow>
          if length rest \<le> length cs
          then repl g @
               replace_global m repl (Some (last (take (Suc (length cs) - length rest) (c # cs)))) rest
          else repl g @ c # replace_global m repl (Some c) cs)"
  by pat_completeness auto
termination
  by (relation "measure (\<lambda>(m, repl, prev, s). length s)") auto

subsection \<open>Regular expressions\<close>

text \<open>
  The constructs that the patterns of the source use: a class of code units (a literal
  character, \<^verbatim>\<open>.\<close>, \<^verbatim>\<open>\s\<close>, \<^verbatim>\<open>\d\<close>), the assertions \<^verbatim>\<open>^\<close> and \<^verbatim>\<open>$\<close> under the \<^verbatim>\<open>m\<close>
  flag, the greedy and the lazy star of a class, capture group 1, and concatenation.
  \<^verbatim>\<open>x+\<close> is written as \<^verbatim>\<open>x\<close> followed by \<^verbatim>\<open>x*\<close>.
\<close>

datatype regex =
    Unit "code_unit \<Rightarrow> bool"
  | Bol
  | Eol
  | Greedy "code_unit \<Rightarrow> bool"
  | Lazy "code_unit \<Rightarrow> bool"
  | Group regex
  | Seq regex regex

text \<open>
  The backtracking matcher, in the continuation style of the language definition. A state
  is the code unit before the current position, the text from the position on, and what
  group 1 has captured. The greedy star first tries to take one more code unit and falls
  back to the continuation; the lazy star first tries the continuation and takes one more
  code unit when that fails.
\<close>

type_synonym mstate = "code_unit option \<times> jsstring \<times> jsstring option"

fun greedy_run ::
  "(code_unit \<Rightarrow> bool) \<Rightarrow> code_unit option \<Rightarrow> jsstring \<Rightarrow> jsstring option \<Rightarrow>
   (mstate \<Rightarrow> 'r option) \<Rightarrow> 'r option" where
  "greedy_run P prev [] g k = k (prev, [], g)"
| "greedy_run P prev (c # cs) g k =
     (if P c
      then (case greedy_run P (Some c) cs g k of
              Some r \<Rightarrow> Some r
            | None \<Rightarrow> k (prev, c # cs, g))
      else k (prev, c # cs, g))"

fun lazy_run ::
  "(code_unit \<Rightarrow> bool) \<Rightarrow> code_unit option \<Rightarrow> jsstring \<Rightarrow> jsstring option \<Rightarrow>
   (mstate \<Rightarrow> 'r option) \<Rightarrow> 'r option" where
  "lazy_run P prev [] g k = k (prev, [], g)"
| "lazy_run P prev (c # cs) g k =
     (case k (prev, c # cs, g) of
        Some r \<Rightarrow> Some r
      | None \<Rightarrow> if P c then lazy_run P (Some c) cs g k else None)"

text \<open>
  With the \<^verbatim>\<open>m\<close> flag, \<^verbatim>\<open>^\<close> holds at the start of the text and after a line terminator,
  and \<^verbatim>\<open>$\<close> at the end of the text and before a line terminator.
\<close>

definition at_line_start :: "code_unit option \<Rightarrow> bool" where
  "at_line_start prev = (case prev of None \<Rightarrow> True | Some c \<Rightarrow> is_line_terminator c)"

primrec run :: "regex \<Rightarrow> mstate \<Rightarrow> (mstate \<Rightarrow> 'r option) \<Rightarrow> 'r option" where
  "run (Unit P) st k =
     (case st of (prev, s, g) \<Rightarrow>
        (case s of [] \<Rightarrow> None | c # cs \<Rightarrow> if P c then k (Some c, cs, g) else None))"
| "run Bol st k = (case st of (prev, s, g) \<Rightarrow> if at_line_start prev then k st else None)"
| "run Eol st k =
     (case st of (prev, s, g) \<Rightarrow>
        (case s of [] \<Rightarrow> k st | c # cs \<Rightarrow> if is_line_terminator c then k st else None))"
| "run (Greedy P) st k = (case st of (prev, s, g) \<Rightarrow> greedy_run P prev s g k)"
| "run (Lazy P) st k = (case st of (prev, s, g) \<Rightarrow> lazy_run P prev s g k)"
| "run (Group r) st k =
     (case st of (prev, s, g) \<Rightarrow>
        run r st (\<lambda>(prev', s', g'). k (prev', s', Some (take (length s - length s') s))))"
| "run (Seq a b) st k = run a st (\<lambda>st'. run b st' k)"

text \<open>
  A match attempt at one position: when the whole pattern has matched, the answer is what
  group 1 captured and the text after the match.
\<close>

definition answer :: "mstate \<Rightarrow> (jsstring \<times> jsstring) option" where
  "answer st = (case st of (prev, s, g) \<Rightarrow> Some (case g of None \<Rightarrow> [] | Some x \<Rightarrow> x, s))"

definition regex_exec :: "regex \<Rightarrow> matcher" where
  "regex_exec r prev s = run r (prev, s, None) answer"

text \<open>The four patterns of \<^verbatim>\<open>parseMarkdown\<close>.\<close>

text \<open>\<^verbatim>\<open>/\*\*(.*?)\*\*/g\<close>\<close>

definition bold_re :: regex where
  "bold_re =
     Seq (Unit (\<lambda>c. c = STAR)) (Seq (Unit (\<lambda>c. c = STAR))
       (Seq (Group (Lazy (\<lambda>c. \<not> is_line_terminator c)))
         (Seq (Unit (\<lambda>c. c = STAR)) (Unit (\<lambda>c. c = STAR)))))"

text \<open>\<^verbatim>\<open>/\*(.*?)\*/g\<close>\<close>

definition italic_re :: regex where
  "italic_re =
     Seq (Unit (\<lambda>c. c = STAR))
       (Seq (Group (Lazy (\<lambda>c. \<not> is_line_terminator c))) (Unit (\<lambda>c. c = STAR)))"

text \<open>\<^verbatim>\<open>/^\s*-\s+(.*)$/gm\<close>\<close>

definition bullet_re :: regex where
  "bullet_re =
     Seq Bol (Seq (Greedy is_white_space) (Seq (Unit (\<lambda>c. c = HYPHEN))
       (Seq (Unit is_white_space) (Seq (Greedy is_white_space)
         (Seq (Group (Greedy (\<lambda>c. \<not> is_line_terminator c))) Eol)))))"

text \<open>\<^verbatim>\<open>/^\s*\d+\.\s+(.*)$/gm\<close>\<close>

definition numbered_re :: regex where
  "numbered_re =
     Seq Bol (Seq (Greedy is_white_space) (Seq (Unit is_digit) (Seq (Greedy is_digit)
       (Seq (Unit (\<lambda>c. c = PERIOD))
         (Seq (Unit is_white_space) (Seq (Greedy is_white_space)
           (Seq (Group (Greedy (\<lambda>c. \<not> is_line_terminator c))) Eol)))))))"

subsection \<open>The four patterns in closed form\<close>

text \<open>
  What the backtracking matcher computes on each of the four patterns, written as direct
  recursion; the agreement is proved below (\<open>bold_re_match\<close> and its three siblings).
\<close>

text \<open>
  \<^verbatim>\<open>(.*?)\*\*\<close>: the lazy group takes the fewest code units, none of them a line
  terminator, after which two asterisks follow.
\<close>

fun lazy_to_stars :: "jsstring \<Rightarrow> (jsstring \<times> jsstring) option" where
  "lazy_to_stars (a # b # rest) =
     (if a = STAR \<and> b = STAR then Some ([], rest)
      else if is_line_terminator a then None
      else map_option (\<lambda>(g, r). (a # g, r)) (lazy_to_stars (b # rest)))"
| "lazy_to_stars s = None"

text \<open>\<^verbatim>\<open>/\*\*(.*?)\*\*/\<close>\<close>

definition match_bold :: matcher where
  "match_bold prev s =
     (case s of
        a # b # rest \<Rightarrow> if a = STAR \<and> b = STAR then lazy_to_stars rest else None
      | _ \<Rightarrow> None)"

text \<open>\<^verbatim>\<open>(.*?)\*\<close>: the fewest code units, none a line terminator, up to the next asterisk.\<close>

fun lazy_to_star :: "jsstring \<Rightarrow> (jsstring \<times> jsstring) option" where
  "lazy_to_star [] = None"
| "lazy_to_star (a # rest) =
     (if a = STAR then Some ([], rest)
      else if is_line_terminator a then None
      else map_option (\<lambda>(g, r). (a # g, r)) (lazy_to_star rest))"

text \<open>\<^verbatim>\<open>/\*(.*?)\*/\<close>\<close>

definition match_italic :: matcher where
  "match_italic prev s =
     (case s of a # rest \<Rightarrow> if a = STAR then lazy_to_star rest else None | _ \<Rightarrow> None)"

text \<open>
  \<^verbatim>\<open>\s+(.*)$\<close> with the \<^verbatim>\<open>m\<close> flag. The greedy \<^verbatim>\<open>\s+\<close> takes the whole run of white
  space (line terminators included), which must not be empty; the greedy group then takes
  everything up to the next line terminator or the end of the text, where \<^verbatim>\<open>$\<close> holds. The
  first attempt of the backtracking matcher therefore succeeds whenever any does.
\<close>

definition item_text :: "jsstring \<Rightarrow> (jsstring \<times> jsstring) option" where
  "item_text s =
     (if takeWhile is_white_space s = [] then None
      else let r = dropWhile is_white_space s
           in Some (takeWhile (\<lambda>c. \<not> is_line_terminator c) r,
                    dropWhile (\<lambda>c. \<not> is_line_terminator c) r))"

text \<open>
  \<^verbatim>\<open>/^\s*-\s+(.*)$/m\<close>. The greedy \<^verbatim>\<open>\s*\<close> takes the whole run of white space: giving
  some of it back would leave a white-space code unit where the hyphen has to be.
\<close>

definition match_bullet :: matcher where
  "match_bullet prev s =
     (if at_line_start prev
      then (case dropWhile is_white_space s of
              [] \<Rightarrow> None
            | a # rest \<Rightarrow> if a = HYPHEN then item_text rest else None)
      else None)"

text \<open>
  \<^verbatim>\<open>/^\s*\d+\.\s+(.*)$/m\<close>. Again each greedy run is maximal: after fewer digits another
  digit would stand where the period has to be.
\<close>

definition match_numbered :: matcher where
  "match_numbered prev s =
     (if at_line_start prev
      then (let r = dropWhile is_white_space s
            in if takeWhile is_digit r = [] then None
               else (case dropWhile is_digit r of
                       [] \<Rightarrow> None
                     | a # rest \<Rightarrow> if a = PERIOD then item_text rest else None))
      else None)"

section \<open>The text renderer\<close>

text \<open>Step 1 of \<^verbatim>\<open>parseMarkdown\<close>: the three replacements, in the order of the source.\<close>

definition escape_html :: "jsstring \<Rightarrow> jsstring" where
  "escape_html text =
     replace_unit GT (js ''&gt;'') (replace_unit LT (js ''&lt;'') (replace_unit AMP (js ''&amp;'') text))"

text \<open>Steps 2 to 5.\<close>

definition bold :: "jsstring \<Rightarrow> jsstring" where
  "bold s =
     replace_global (regex_exec bold_re) (\<lambda>g. js ''<strong>'' @ g @ js ''</strong>'') None s"

definition italic :: "jsstring \<Rightarrow> jsstring" where
  "italic s = replace_global (regex_exec italic_re) (\<lambda>g. js ''<em>'' @ g @ js ''</em>'') None s"

definition bullet_items :: "jsstring \<Rightarrow> jsstring" where
  "bullet_items s =
     replace_global (regex_exec bullet_re) (\<lambda>g. js ''<li>'' @ g @ js ''</li>'') None s"

definition numbered_items :: "jsstring \<Rightarrow> jsstring" where
  "numbered_items s =
     replace_global (regex_exec numbered_re) (\<lambda>g. js ''<li>'' @ g @ js ''</li>'') None s"

text \<open>
  The body of \<^verbatim>\<open>lines.forEach\<close>: the state is the pair of \<^verbatim>\<open>html\<close> and \<^verbatim>\<open>inList\<close>.
\<close>

definition line_step :: "jsstring \<times> bool \<Rightarrow> jsstring \<Rightarrow> jsstring \<times> bool" where
  "line_step st line =
     (case st of (html, inList) \<Rightarrow>
        if str_includes line (js ''<li>'')
        then (if \<not> inList then (html @ js ''<ul>'' @ line, True) else (html @ line, inList))
        else (case (if inList then (html @ js ''</ul>'', False) else (html, inList)) of
                (html', inList') \<Rightarrow>
                  if trim line \<noteq> [] then (html' @ js ''<p>'' @ line @ js ''</p>'', inList')
                  else (html', inList')))"

text \<open>The loop over the lines and the closing of a list that is still open.\<close>

definition wrap_lines :: "jsstring list \<Rightarrow> jsstring" where
  "wrap_lines lines =
     (case foldl line_step ([], False) lines of
        (html, inList) \<Rightarrow> if inList then html @ js ''</ul>'' else html)"

definition parseMarkdown :: "jsstring \<Rightarrow> jsstring" where
  "parseMarkdown text =
     (if text = [] then []
      else wrap_lines (split_lines (numbered_items (bullet_items (italic (bold (escape_html text)))))))"

section \<open>The page\<close>

text \<open>A turn of the conversation, \<^verbatim>\<open>{ role, text }\<close>, with role \<^verbatim>\<open>'user'\<close> or \<^verbatim>\<open>'model'\<close>.\<close>

datatype role = User | Model

record turn =
  turn_role :: role
  turn_text :: jsstring

text \<open>
  A message element of the chat box: its class (\<^verbatim>\<open>user-message\<close> or
  \<^verbatim>\<open>model-message\<close>) and its content, set either through \<^verbatim>\<open>textContent\<close> or through
  \<^verbatim>\<open>innerHTML\<close>.
\<close>

datatype content = TextContent jsstring | InnerHTML jsstring

record message =
  msg_class :: role
  msg_content :: content

text \<open>
  What \<^verbatim>\<open>response.json()\<close> can resolve to. An object is the list of its properties,
  each key once.
\<close>

datatype jsvalue =
    JNull
  | JBool bool
  | JNumber real
  | JString jsstring
  | JArray "jsvalue list"
  | JObject "(jsstring \<times> jsvalue) list"

text \<open>
  How \<^verbatim>\<open>await fetch(...)\<close> ends: the promise rejects (transport failure), or it resolves
  to a response with a status and a body; the body is \<open>None\<close> when \<^verbatim>\<open>response.json()\<close>
  rejects because the body is not JSON.
\<close>

datatype fetch_outcome = Rejected | Response nat "jsvalue option"

text \<open>\<^verbatim>\<open>response.ok\<close>: the status is in the range 200 to 299.\<close>

definition response_ok :: "nat \<Rightarrow> bool" where
  "response_ok status = (200 \<le> status \<and> status \<le> 299)"

text \<open>What the \<^verbatim>\<open>try\<close> block can throw.\<close>

datatype js_error = NetworkError | ServerError nat | JsonSyntaxError | TypeError

text \<open>
  The state the handlers read and write: the conversation history, the children of the
  chat box, the input box and the submit button, the request bodies posted so far, what
  \<^verbatim>\<open>console.error\<close> has logged, and for the theme the \<^verbatim>\<open>data-theme\<close> attribute of the
  body, the label of the toggle and the local storage. Scrolling is left out.
\<close>

record page =
  conversationHelper :: "turn list"
  chatBox :: "message list"
  userInput_value :: jsstring
  userInput_disabled :: bool
  userInput_focused :: bool
  submitButton_disabled :: bool
  posted :: "turn list list"
  console_errors :: "js_error list"
  data_theme :: jsstring
  themeToggle_text :: jsstring
  localStorage :: "jsstring \<rightharpoonup> jsstring"

subsection \<open>Theme\<close>

definition SUN :: jsstring where "SUN = [0x2600, 0xFE0F]"
definition MOON :: jsstring where "MOON = [0xD83C, 0xDF19]"

text \<open>The start-up code: \<^verbatim>\<open>localStorage.getItem('theme') || 'light'\<close>.\<close>

definition load_theme :: "page \<Rightarrow> page" where
  "load_theme p =
     (let savedTheme = (case localStorage p (js ''theme'') of
                          None \<Rightarrow> js ''light''
                        | Some v \<Rightarrow> if v = [] then js ''light'' else v)
      in p\<lparr>data_theme := savedTheme,
            themeToggle_text := (if savedTheme = js ''dark'' then SUN else MOON)\<rparr>)"

text \<open>The click handler of the theme toggle.\<close>

definition toggle_click :: "page \<Rightarrow> page" where
  "toggle_click p =
     (let currentTheme = data_theme p;
          newTheme = (if currentTheme = js ''light'' then js ''dark'' else js ''light'')
      in p\<lparr>data_theme := newTheme,
            localStorage := (localStorage p)(js ''theme'' \<mapsto> newTheme),
            themeToggle_text := (if newTheme = js ''dark'' then SUN else MOON)\<rparr>)"

subsection \<open>Chat\<close>

definition addMessage :: "role \<Rightarrow> jsstring \<Rightarrow> page \<Rightarrow> page" where
  "addMessage r t p =
     p\<lparr>chatBox := chatBox p @
          [\<lparr>msg_class = r,
            msg_content = (if r = Model then InnerHTML (parseMarkdown t) else TextContent t)\<rparr>]\<rparr>"

definition setFormState :: "bool \<Rightarrow> page \<Rightarrow> page" where
  "setFormState disabled p =
     (let p' = p\<lparr>userInput_disabled := disabled, submitButton_disabled := disabled\<rparr>
      in if \<not> disabled then p'\<lparr>userInput_focused := True\<rparr> else p')"

text \<open>JavaScript truthiness of a parsed JSON value, and of \<^verbatim>\<open>undefined\<close> (\<open>None\<close>).\<close>

fun truthy :: "jsvalue option \<Rightarrow> bool" where
  "truthy None = False"
| "truthy (Some JNull) = False"
| "truthy (Some (JBool b)) = b"
| "truthy (Some (JNumber x)) = (x \<noteq> 0)"
| "truthy (Some (JString s)) = (s \<noteq> [])"
| "truthy (Some (JArray xs)) = True"
| "truthy (Some (JObject kvs)) = True"

text \<open>
  \<^verbatim>\<open>data.result\<close> for a truthy \<open>data\<close>: the property of an object, \<^verbatim>\<open>undefined\<close> on
  anything else the body can be.
\<close>

fun get_result :: "jsvalue \<Rightarrow> jsvalue option" where
  "get_result (JObject kvs) = map_of kvs (js ''result'')"
| "get_result v = None"

text \<open>
  The handler up to \<^verbatim>\<open>await fetch\<close>. It returns \<open>None\<close> when it returns early, and
  otherwise the position of the placeholder in the chat box with the new state.
\<close>

definition submit_begin :: "page \<Rightarrow> (nat \<times> page) option" where
  "submit_begin p =
     (let t = trim (userInput_value p)
      in if t = [] then None
         else let p1 = addMessage User t p;
                  p2 = p1\<lparr>conversationHelper :=
                            conversationHelper p1 @ [\<lparr>turn_role = User, turn_text = t\<rparr>]\<rparr>;
                  p3 = p2\<lparr>userInput_value := []\<rparr>;
                  p4 = setFormState True p3;
                  p5 = p4\<lparr>chatBox := chatBox p4 @
                            [\<lparr>msg_class = Model, msg_content = TextContent (js ''Thinking...'')\<rparr>]\<rparr>
              in Some (length (chatBox p4), p5))"

text \<open>Assignment to the content of the placeholder, the element at position \<open>i\<close>.\<close>

definition set_placeholder :: "nat \<Rightarrow> content \<Rightarrow> page \<Rightarrow> page" where
  "set_placeholder i c p = p\<lparr>chatBox := (chatBox p)[i := (chatBox p ! i)\<lparr>msg_content := c\<rparr>]\<rparr>"

text \<open>
  The \<^verbatim>\<open>try\<close> block: the error thrown, if any, and the state reached. A truthy
  \<^verbatim>\<open>data.result\<close> that is not a string has no \<^verbatim>\<open>replace\<close> method, so \<^verbatim>\<open>parseMarkdown\<close>
  throws a \<^verbatim>\<open>TypeError\<close> before anything is assigned.
\<close>

definition try_block :: "nat \<Rightarrow> fetch_outcome \<Rightarrow> page \<Rightarrow> js_error option \<times> page" where
  "try_block i outcome p =
     (let p1 = p\<lparr>posted := posted p @ [conversationHelper p]\<rparr>
      in case outcome of
           Rejected \<Rightarrow> (Some NetworkError, p1)
         | Response status body \<Rightarrow>
             if \<not> response_ok status then (Some (ServerError status), p1)
             else (case body of
                     None \<Rightarrow> (Some JsonSyntaxError, p1)
                   | Some data \<Rightarrow>
                       if truthy (Some data) \<and> truthy (get_result data)
                       then (case get_result data of
                               Some (JString r) \<Rightarrow>
                                 (let p2 = set_placeholder i (InnerHTML (parseMarkdown r)) p1
                                  in (None, p2\<lparr>conversationHelper :=
                                              conversationHelper p2 @
                                              [\<lparr>turn_role = Model, turn_text = r\<rparr>]\<rparr>))
                             | _ \<Rightarrow> (Some TypeError, p1))
                       else (None,
                             set_placeholder i
                               (TextContent (js ''Sorry, no response received.'')) p1)))"

text \<open>The \<^verbatim>\<open>catch\<close> block.\<close>

definition catch_block :: "nat \<Rightarrow> js_error \<Rightarrow> page \<Rightarrow> page" where
  "catch_block i e p =
     set_placeholder i (TextContent (js ''Failed to get response from server.''))
       (p\<lparr>console_errors := console_errors p @ [e]\<rparr>)"

text \<open>
  The submit handler, run to its end with the given outcome of the request: the part
  before the request, the \<^verbatim>\<open>try\<close> block, the \<^verbatim>\<open>catch\<close> block when something was thrown,
  and the \<^verbatim>\<open>finally\<close> block. While the request is pending the form is disabled, and the
  only other handler of the page, the theme toggle, touches none of the fields used here,
  so the two halves of the handler are composed directly.
\<close>

definition submit :: "fetch_outcome \<Rightarrow> page \<Rightarrow> page" where
  "submit outcome p =
     (case submit_begin p of
        None \<Rightarrow> p
      | Some (i, p1) \<Rightarrow>
          (case try_block i outcome p1 of
             (None, p2) \<Rightarrow> setFormState False p2
           | (Some e, p2) \<Rightarrow> setFormState False (catch_block i e p2)))"

section \<open>Notions used in the statements\<close>

text \<open>
  The page right after loading with an empty local storage and an empty chat box, and the
  user typing into the input box.
\<close>

definition start_page :: page where
  "start_page =
     load_theme \<lparr>conversationHelper = [], chatBox = [], userInput_value = [],
       userInput_disabled = False, userInput_focused = False, submitButton_disabled = False,
       posted = [], console_errors = [], data_theme = [], themeToggle_text = [],
       localStorage = Map.empty\<rparr>"

definition typed :: "jsstring \<Rightarrow> page \<Rightarrow> page" where
  "typed t p = p\<lparr>userInput_value := t\<rparr>"

text \<open>
  The message that displays a turn (what \<^verbatim>\<open>addMessage\<close> builds for its role and text);
  the display is in sync with the conversation when it shows exactly its turns, in order.
\<close>

definition shown :: "turn \<Rightarrow> message" where
  "shown t =
     \<lparr>msg_class = turn_role t,
      msg_content = (if turn_role t = Model then InnerHTML (parseMarkdown (turn_text t))
                     else TextContent (turn_text t))\<rparr>"

definition in_sync :: "page \<Rightarrow> bool" where
  "in_sync p = (chatBox p = map shown (conversationHelper p))"

text \<open>
  The entity references that step 1 writes and the tags that the later steps generate.
\<close>

definition entity_refs :: "jsstring list" where
  "entity_refs = [js ''&amp;'', js ''&lt;'', js ''&gt;'']"

definition generated_tags :: "jsstring list" where
  "generated_tags =
     [js ''<strong>'', js ''</strong>'', js ''<em>'', js ''</em>'', js ''<li>'', js ''</li>'',
      js ''<ul>'', js ''</ul>'', js ''<p>'', js ''</p>'']"

text \<open>
  A markup string is safe when it is a sequence of entity references, generated tags and
  code units other than \<^verbatim>\<open>&\<close>, \<^verbatim>\<open><\<close> and \<^verbatim>\<open>>\<close>: each of these three characters then
  occurs in it only inside an entity reference or a generated tag.
\<close>

inductive markup_safe :: "jsstring \<Rightarrow> bool" where
  empty: "markup_safe []"
| plain: "c \<noteq> AMP \<Longrightarrow> c \<noteq> LT \<Longrightarrow> c \<noteq> GT \<Longrightarrow> markup_safe s \<Longrightarrow> markup_safe (c # s)"
| entity: "e \<in> set entity_refs \<Longrightarrow> markup_safe s \<Longrightarrow> markup_safe (e @ s)"
| tag: "t \<in> set generated_tags \<Longrightarrow> markup_safe s \<Longrightarrow> markup_safe (t @ s)"

text \<open>
  The same notion as a function that can be evaluated: at \<^verbatim>\<open>&\<close>, \<^verbatim>\<open><\<close> or \<^verbatim>\<open>>\<close> one of the
  entity references or generated tags has to start, and the rest is checked after it.
\<close>

fun strip_prefix :: "jsstring \<Rightarrow> jsstring \<Rightarrow> jsstring option" where
  "strip_prefix [] s = Some s"
| "strip_prefix (p # ps) [] = None"
| "strip_prefix (p # ps) (c # cs) = (if p = c then strip_prefix ps cs else None)"

function check_markup :: "jsstring \<Rightarrow> bool" where
  "check_markup [] = True"
| "check_markup (c # cs) =
     (if c = AMP \<or> c = LT \<or> c = GT
      then list_ex (\<lambda>t. case strip_prefix t (c # cs) of
                           None \<Rightarrow> False
                         | Some r \<Rightarrow> if length r < length (c # cs) then check_markup r else False)
             (entity_refs @ generated_tags)
      else check_markup cs)"
  by pat_completeness auto
termination
  by (relation "measure length") auto

text \<open>
  The three characters that step 1 escapes, what it writes for one code unit, and the
  characters that the entity references of a markup stand for, in the order of the
  references.
\<close>

definition special :: "code_unit \<Rightarrow> bool" where
  "special c = (c = AMP \<or> c = LT \<or> c = GT)"

definition escape_unit :: "code_unit \<Rightarrow> jsstring" where
  "escape_unit c =
     (if c = AMP then js ''&amp;'' else if c = LT then js ''&lt;''
      else if c = GT then js ''&gt;'' else [c])"

fun entities_of :: "jsstring \<Rightarrow> code_unit list" where
  "entities_of [] = []"
| "entities_of (c # cs) =
     (if c = AMP \<and> take 4 cs = js ''amp;'' then [AMP]
      else if c = AMP \<and> take 3 cs = js ''lt;'' then [LT]
      else if c = AMP \<and> take 3 cs = js ''gt;'' then [GT]
      else []) @ entities_of cs"

text \<open>A code unit that occurs in no entity reference and in no generated tag.\<close>

definition neutral :: "code_unit \<Rightarrow> bool" where
  "neutral c =
     (c \<noteq> AMP \<and> c \<noteq> LT \<and> c \<noteq> GT \<and> c \<notin> set (concat (entity_refs @ generated_tags)))"

text \<open>
  A line of a list as the user writes it: blanks, the marker (a hyphen, or digits and a
  period), at least one blank, and the text of the item. The text is taken to start with a
  code unit that is not white space, and neither the text nor the blanks hold a line
  terminator.
\<close>

datatype marker = Bullet | Numbered jsstring

record item =
  indent :: jsstring
  marker :: marker
  gap :: jsstring
  body :: jsstring

definition blank :: "code_unit \<Rightarrow> bool" where
  "blank c = (is_white_space c \<and> \<not> is_line_terminator c)"

fun marker_text :: "marker \<Rightarrow> jsstring" where
  "marker_text Bullet = [HYPHEN]"
| "marker_text (Numbered ds) = ds @ [PERIOD]"

definition item_prefix :: "item \<Rightarrow> jsstring" where
  "item_prefix it = indent it @ marker_text (marker it) @ gap it"

definition item_source :: "item \<Rightarrow> jsstring" where
  "item_source it = item_prefix it @ body it"

definition well_formed_item :: "item \<Rightarrow> bool" where
  "well_formed_item it =
     (list_all blank (indent it)
      \<and> (case marker it of Bullet \<Rightarrow> True | Numbered ds \<Rightarrow> ds \<noteq> [] \<and> list_all is_digit ds)
      \<and> gap it \<noteq> [] \<and> list_all blank (gap it)
      \<and> body it \<noteq> [] \<and> \<not> is_white_space (hd (body it))
      \<and> list_all (\<lambda>c. \<not> is_line_terminator c) (body it))"

text \<open>Lines joined by line feeds, as \<^verbatim>\<open>lines.join('\n')\<close> does.\<close>

fun join_lines :: "jsstring list \<Rightarrow> jsstring" where
  "join_lines [] = []"
| "join_lines [l] = l"
| "join_lines (l # ls) = l @ NEWLINE # join_lines ls"

text \<open>
  Steps 1 to 3 on the text of one item, and the list-item element that the item becomes.
\<close>

definition inline :: "jsstring \<Rightarrow> jsstring" where
  "inline s = italic (bold (escape_html s))"

definition item_element :: "item \<Rightarrow> jsstring" where
  "item_element it = js ''<li>'' @ inline (body it) @ js ''</li>''"

text \<open>The code unit before the position that a run of a class ends at.\<close>

definition after_run :: "(code_unit \<Rightarrow> bool) \<Rightarrow> code_unit option \<Rightarrow> jsstring \<Rightarrow> code_unit option" where
  "after_run P prev s = (if takeWhile P s = [] then prev else Some (last (takeWhile P s)))"

text \<open>A text without line terminators.\<close>

definition lt_free :: "jsstring \<Rightarrow> bool" where
  "lt_free s = (\<forall>c\<in>set s. \<not> is_line_terminator c)"

section \<open>The backtracking matcher on the four patterns\<close>

lemmas char_defs = js_def AMP_def LT_def GT_def STAR_def HYPHEN_def PERIOD_def NEWLINE_def
  is_line_terminator_def is_white_space_def is_digit_def

lemma map_capture:
  "map_option (\<lambda>(g, r). (pre @ g, r)) (map_option (\<lambda>(g, r). (a # g, r)) X) =
   map_option (\<lambda>(g, r). ((pre @ [a]) @ g, r)) X"
  by (cases X) auto

lemma map_capture_Nil: "map_option (\<lambda>(g, r). ([] @ g, r)) X = X"
  by (cases X) auto

lemma lazy_run_star:
  "lazy_run (\<lambda>c. \<not> is_line_terminator c) p x g
     (\<lambda>(p', s', g'). run (Unit (\<lambda>c. c = STAR)) (p', s', Some (take (length (pre @ x) - length s') (pre @ x)))
        answer) =
   map_option (\<lambda>(g, r). (pre @ g, r)) (lazy_to_star x)"
proof (induction x arbitrary: pre p)
  case Nil
  show ?case by simp
next
  case (Cons a x)
  have ih: "lazy_run (\<lambda>c. \<not> is_line_terminator c) (Some a) x g
     (\<lambda>(p', s', g'). run (Unit (\<lambda>c. c = STAR))
        (p', s', Some (take (length ((pre @ [a]) @ x) - length s') ((pre @ [a]) @ x))) answer) =
     map_option (\<lambda>(g, r). ((pre @ [a]) @ g, r)) (lazy_to_star x)"
    by (rule Cons)
  show ?case
  proof (cases "a = STAR")
    case True
    then show ?thesis by (simp add: answer_def)
  next
    case False
    then show ?thesis
      using ih by (simp add: map_capture)
  qed
qed

lemma lazy_run_stars:
  "lazy_run (\<lambda>c. \<not> is_line_terminator c) p x g
     (\<lambda>(p', s', g'). run (Seq (Unit (\<lambda>c. c = STAR)) (Unit (\<lambda>c. c = STAR)))
        (p', s', Some (take (length (pre @ x) - length s') (pre @ x))) answer) =
   map_option (\<lambda>(g, r). (pre @ g, r)) (lazy_to_stars x)"
proof (induction x arbitrary: pre p)
  case Nil
  show ?case by simp
next
  case (Cons a x)
  have ih: "lazy_run (\<lambda>c. \<not> is_line_terminator c) (Some a) x g
     (\<lambda>(p', s', g'). run (Seq (Unit (\<lambda>c. c = STAR)) (Unit (\<lambda>c. c = STAR)))
        (p', s', Some (take (length ((pre @ [a]) @ x) - length s') ((pre @ [a]) @ x))) answer) =
     map_option (\<lambda>(g, r). ((pre @ [a]) @ g, r)) (lazy_to_stars x)"
    by (rule Cons)
  show ?case
  proof (cases x)
    case Nil
    then show ?thesis by simp
  next
    case (Cons b x')
    show ?thesis
    proof (cases "a = STAR \<and> b = STAR")
      case True
      then show ?thesis by (simp add: Cons answer_def)
    next
      case False
      then show ?thesis
        using ih by (auto simp: Cons map_capture)
    qed
  qed
qed

lemma italic_re_match: "regex_exec italic_re prev s = match_italic prev s"
proof (cases s)
  case Nil
  then show ?thesis by (simp add: regex_exec_def italic_re_def match_italic_def)
next
  case (Cons c cs)
  show ?thesis
    using lazy_run_star [of "Some STAR" cs None "[]"]
    by (simp add: Cons regex_exec_def italic_re_def match_italic_def option.map_id)
qed

lemma bold_re_match: "regex_exec bold_re prev s = match_bold prev s"
proof (cases s)
  case Nil
  then show ?thesis by (simp add: regex_exec_def bold_re_def match_bold_def)
next
  case (Cons c cs)
  show ?thesis
  proof (cases cs)
    case Nil
    then show ?thesis
      by (simp add: Cons regex_exec_def bold_re_def match_bold_def)
  next
    case (Cons d ds)
    show ?thesis
      using lazy_run_stars [of "Some STAR" ds None "[]"]
      by (simp add: \<open>s = c # cs\<close> Cons regex_exec_def bold_re_def match_bold_def option.map_id)
  qed
qed

lemma after_run_Cons: "P c \<Longrightarrow> after_run P prev (c # cs) = after_run P (Some c) cs"
  by (simp add: after_run_def)

lemma after_run_stop: "\<not> P c \<Longrightarrow> after_run P prev (c # cs) = prev" "after_run P prev [] = prev"
  by (simp_all add: after_run_def)

lemma greedy_run_first:
  "k (after_run P prev s, dropWhile P s, g) = Some r \<Longrightarrow> greedy_run P prev s g k = Some r"
proof (induction s arbitrary: prev)
  case Nil
  then show ?case by (simp add: after_run_stop)
next
  case (Cons c cs)
  show ?case
  proof (cases "P c")
    case True
    with Cons.prems have "k (after_run P (Some c) cs, dropWhile P cs, g) = Some r"
      by (simp add: after_run_Cons)
    from Cons.IH [OF this] True show ?thesis by simp
  next
    case False
    with Cons.prems show ?thesis by (simp add: after_run_stop)
  qed
qed

lemma greedy_run_skip:
  assumes "\<And>q c t. P c \<Longrightarrow> k (q, c # t, g) = None"
  shows "greedy_run P prev s g k = k (after_run P prev s, dropWhile P s, g)"
proof (induction s arbitrary: prev)
  case Nil
  show ?case by (simp add: after_run_stop)
next
  case (Cons c cs)
  show ?case
  proof (cases "P c")
    case True
    show ?thesis
    proof (cases "k (after_run P (Some c) cs, dropWhile P cs, g)")
      case None
      with True Cons [of "Some c"] assms [OF True, of prev cs] show ?thesis
        by (simp add: after_run_Cons)
    next
      case (Some r)
      with True Cons [of "Some c"] show ?thesis by (simp add: after_run_Cons)
    qed
  next
    case False
    then show ?thesis by (simp add: after_run_stop)
  qed
qed

lemma take_dropWhile: "take (length t - length (dropWhile P t)) t = takeWhile P t"
proof -
  have "length t = length (takeWhile P t) + length (dropWhile P t)"
    by (metis length_append takeWhile_dropWhile_id)
  then have "length t - length (dropWhile P t) = length (takeWhile P t)"
    by simp
  moreover have "take (length (takeWhile P t)) t = takeWhile P t"
    using takeWhile_dropWhile_id [of P t] by (metis append_eq_conv_conj)
  ultimately show ?thesis by simp
qed

lemma run_Seq_Unit:
  "run (Seq (Unit P) X) (q, s, g) k =
     (case s of [] \<Rightarrow> None | c # cs \<Rightarrow> if P c then run X (Some c, cs, g) k else None)"
  by simp

lemma run_Seq_Bol:
  "run (Seq Bol X) (q, s, g) k = (if at_line_start q then run X (q, s, g) k else None)"
  by simp

lemma run_Seq_Greedy:
  "run (Seq (Greedy P) X) (q, s, g) k = greedy_run P q s g (\<lambda>st. run X st k)"
  by simp

lemma run_Eol:
  "run Eol (q, s, g) k = (if s = [] \<or> is_line_terminator (hd s) then k (q, s, g) else None)"
  by (cases s) simp_all

lemma run_line_rest:
  "run (Seq (Group (Greedy (\<lambda>c. \<not> is_line_terminator c))) Eol) (q, t, g) answer =
   Some (takeWhile (\<lambda>c. \<not> is_line_terminator c) t, dropWhile (\<lambda>c. \<not> is_line_terminator c) t)"
proof -
  let ?P = "\<lambda>c. \<not> is_line_terminator c"
  define k :: "mstate \<Rightarrow> (jsstring \<times> jsstring) option"
    where "k = (\<lambda>(prev', s', g'). run Eol (prev', s', Some (take (length t - length s') t)) answer)"
  have top: "run (Seq (Group (Greedy ?P)) Eol) (q, t, g) answer = greedy_run ?P q t g k"
    by (simp add: k_def)
  have e: "dropWhile ?P t = [] \<or> is_line_terminator (hd (dropWhile ?P t))"
    using hd_dropWhile [of ?P t] by auto
  have "k (after_run ?P q t, dropWhile ?P t, g) =
        run Eol (after_run ?P q t, dropWhile ?P t, Some (takeWhile ?P t)) answer"
    by (simp add: k_def take_dropWhile del: run.simps)
  also have "\<dots> = Some (takeWhile ?P t, dropWhile ?P t)"
    using e by (simp add: run_Eol answer_def del: run.simps)
  finally have "greedy_run ?P q t g k = Some (takeWhile ?P t, dropWhile ?P t)"
    by (rule greedy_run_first)
  with top show ?thesis by simp
qed

lemma run_item_text:
  "run (Seq (Unit is_white_space) (Seq (Greedy is_white_space)
      (Seq (Group (Greedy (\<lambda>c. \<not> is_line_terminator c))) Eol))) (q, r, g) answer =
   item_text r"
proof (cases r)
  case Nil
  then show ?thesis by (simp add: item_text_def)
next
  case (Cons c r')
  let ?line = "Seq (Group (Greedy (\<lambda>c. \<not> is_line_terminator c))) Eol"
  show ?thesis
  proof (cases "is_white_space c")
    case True
    define k :: "mstate \<Rightarrow> (jsstring \<times> jsstring) option"
      where "k = (\<lambda>st. run ?line st answer)"
    have "k (after_run is_white_space (Some c) r', dropWhile is_white_space r', g) =
          Some (takeWhile (\<lambda>c. \<not> is_line_terminator c) (dropWhile is_white_space r'),
                dropWhile (\<lambda>c. \<not> is_line_terminator c) (dropWhile is_white_space r'))"
      unfolding k_def by (rule run_line_rest)
    then have "greedy_run is_white_space (Some c) r' g k =
          Some (takeWhile (\<lambda>c. \<not> is_line_terminator c) (dropWhile is_white_space r'),
                dropWhile (\<lambda>c. \<not> is_line_terminator c) (dropWhile is_white_space r'))"
      by (rule greedy_run_first)
    moreover have "run (Seq (Unit is_white_space) (Seq (Greedy is_white_space) ?line))
            (q, c # r', g) answer = greedy_run is_white_space (Some c) r' g k"
      unfolding run_Seq_Unit run_Seq_Greedy k_def using True by simp
    ultimately show ?thesis using True Cons by (simp add: item_text_def Let_def del: run.simps)
  next
    case False
    with Cons show ?thesis by (simp add: item_text_def)
  qed
qed

lemma digit_units:
  assumes "is_digit c"
  shows "\<not> is_white_space c" and "c \<noteq> HYPHEN"
proof -
  from assms have c: "0x30 \<le> c" "c \<le> 0x39" by (simp_all add: is_digit_def)
  have "\<not> (0x2000 \<le> c)"
  proof
    assume "0x2000 \<le> c"
    from this c(2) have "(0x2000 :: code_unit) \<le> 0x39" by (rule order_trans)
    then show False by simp
  qed
  with c show "\<not> is_white_space c"
    by (auto simp: is_white_space_def is_line_terminator_def)
  from c show "c \<noteq> HYPHEN" by (auto simp: HYPHEN_def)
qed

lemma bullet_re_match: "regex_exec bullet_re prev s = match_bullet prev s"
proof (cases "at_line_start prev")
  case False
  then show ?thesis
    by (simp add: regex_exec_def bullet_re_def match_bullet_def run_Seq_Bol del: run.simps)
next
  case True
  define tail where "tail = Seq (Unit is_white_space) (Seq (Greedy is_white_space)
      (Seq (Group (Greedy (\<lambda>c. \<not> is_line_terminator c))) Eol))"
  have rt: "run tail (q, r, g) answer = item_text r" for q r g
    unfolding tail_def by (rule run_item_text)
  define k :: "mstate \<Rightarrow> (jsstring \<times> jsstring) option"
    where "k = (\<lambda>st. run (Seq (Unit (\<lambda>c. c = HYPHEN)) tail) st answer)"
  have kk: "k (q, t, None) =
      (case t of [] \<Rightarrow> None | a # r \<Rightarrow> if a = HYPHEN then item_text r else None)" for q t
    unfolding k_def run_Seq_Unit by (auto simp: rt split: list.splits)
  have "\<not> is_white_space HYPHEN" by (simp add: char_defs)
  then have skip: "k (q, c # t, None) = None" if "is_white_space c" for q c t
    using that by (auto simp: kk)
  have re: "bullet_re = Seq Bol (Seq (Greedy is_white_space) (Seq (Unit (\<lambda>c. c = HYPHEN)) tail))"
    by (simp add: bullet_re_def tail_def)
  have "regex_exec bullet_re prev s = greedy_run is_white_space prev s None k"
    unfolding regex_exec_def re run_Seq_Bol run_Seq_Greedy k_def using True by simp
  also have "\<dots> = k (after_run is_white_space prev s, dropWhile is_white_space s, None)"
    using skip by (rule greedy_run_skip)
  also have "\<dots> = (case dropWhile is_white_space s of [] \<Rightarrow> None
                    | a # r \<Rightarrow> if a = HYPHEN then item_text r else None)"
    by (rule kk)
  also have "\<dots> = match_bullet prev s"
    using True by (simp add: match_bullet_def)
  finally show ?thesis .
qed

lemma numbered_re_match: "regex_exec numbered_re prev s = match_numbered prev s"
proof (cases "at_line_start prev")
  case False
  then show ?thesis
    by (simp add: regex_exec_def numbered_re_def match_numbered_def run_Seq_Bol del: run.simps)
next
  case True
  define tail where "tail = Seq (Unit is_white_space) (Seq (Greedy is_white_space)
      (Seq (Group (Greedy (\<lambda>c. \<not> is_line_terminator c))) Eol))"
  have rt: "run tail (q, r, g) answer = item_text r" for q r g
    unfolding tail_def by (rule run_item_text)
  define dot where "dot = Seq (Unit (\<lambda>c. c = PERIOD)) tail"
  define k2 :: "mstate \<Rightarrow> (jsstring \<times> jsstring) option"
    where "k2 = (\<lambda>st. run dot st answer)"
  define k1 :: "mstate \<Rightarrow> (jsstring \<times> jsstring) option"
    where "k1 = (\<lambda>st. run (Seq (Unit is_digit) (Seq (Greedy is_digit) dot)) st answer)"
  have kk2: "k2 (q, t, None) =
      (case t of [] \<Rightarrow> None | a # r \<Rightarrow> if a = PERIOD then item_text r else None)" for q t
    unfolding k2_def dot_def run_Seq_Unit by (auto simp: rt split: list.splits)
  have "\<not> is_digit PERIOD" by (simp add: char_defs)
  then have skip2: "k2 (q, c # t, None) = None" if "is_digit c" for q c t
    using that by (auto simp: kk2)
  have g2: "greedy_run is_digit p t None k2 =
        k2 (after_run is_digit p t, dropWhile is_digit t, None)" for p t
    using skip2 by (rule greedy_run_skip)
  have "k1 (q, t, None) =
      (case t of [] \<Rightarrow> None
       | d # r \<Rightarrow> if is_digit d then greedy_run is_digit (Some d) r None k2 else None)" for q t
    unfolding k1_def k2_def run_Seq_Unit run_Seq_Greedy ..
  then have kk1: "k1 (q, t, None) =
      (case t of [] \<Rightarrow> None
       | d # r \<Rightarrow> if is_digit d
           then (case dropWhile is_digit r of [] \<Rightarrow> None
                 | a # rest \<Rightarrow> if a = PERIOD then item_text rest else None)
           else None)" for q t
    by (auto simp: g2 kk2 split: list.splits)
  have skip1: "k1 (q, c # t, None) = None" if "is_white_space c" for q c t
    using that digit_units(1) [of c] by (auto simp: kk1)
  have shape: "(case r of [] \<Rightarrow> None
       | d # r' \<Rightarrow> if is_digit d
           then (case dropWhile is_digit r' of [] \<Rightarrow> None
                 | a # rest \<Rightarrow> if a = PERIOD then item_text rest else None)
           else None) =
      (if takeWhile is_digit r = [] then None
       else (case dropWhile is_digit r of [] \<Rightarrow> None
             | a # rest \<Rightarrow> if a = PERIOD then item_text rest else None))" for r
    by (cases r) simp_all
  have re: "numbered_re =
      Seq Bol (Seq (Greedy is_white_space) (Seq (Unit is_digit) (Seq (Greedy is_digit) dot)))"
    by (simp add: numbered_re_def tail_def dot_def)
  have "regex_exec numbered_re prev s = greedy_run is_white_space prev s None k1"
    unfolding regex_exec_def re run_Seq_Bol run_Seq_Greedy k1_def using True by simp
  also have "\<dots> = k1 (after_run is_white_space prev s, dropWhile is_white_space s, None)"
    using skip1 by (rule greedy_run_skip)
  also have "\<dots> = (if takeWhile is_digit (dropWhile is_white_space s) = [] then None
                   else (case dropWhile is_digit (dropWhile is_white_space s) of
                           [] \<Rightarrow> None
                         | a # rest \<Rightarrow> if a = PERIOD then item_text rest else None))"
    unfolding kk1 by (rule shape)
  also have "\<dots> = match_numbered prev s"
    using True by (simp add: match_numbered_def Let_def)
  finally show ?thesis .
qed

text \<open>The replacement steps in terms of the closed forms.\<close>

lemma bold_closed:
  "bold s = replace_global match_bold (\<lambda>g. js ''<strong>'' @ g @ js ''</strong>'') None s"
proof -
  have "regex_exec bold_re = match_bold" by (intro ext) (rule bold_re_match)
  then show ?thesis by (simp add: bold_def)
qed

lemma italic_closed:
  "italic s = replace_global match_italic (\<lambda>g. js ''<em>'' @ g @ js ''</em>'') None s"
proof -
  have "regex_exec italic_re = match_italic" by (intro ext) (rule italic_re_match)
  then show ?thesis by (simp add: italic_def)
qed

lemma bullet_items_closed:
  "bullet_items s = replace_global match_bullet (\<lambda>g. js ''<li>'' @ g @ js ''</li>'') None s"
proof -
  have "regex_exec bullet_re = match_bullet" by (intro ext) (rule bullet_re_match)
  then show ?thesis by (simp add: bullet_items_def)
qed

lemma numbered_items_closed:
  "numbered_items s =
     replace_global match_numbered (\<lambda>g. js ''<li>'' @ g @ js ''</li>'') None s"
proof -
  have "regex_exec numbered_re = match_numbered" by (intro ext) (rule numbered_re_match)
  then show ?thesis by (simp add: numbered_items_def)
qed

section \<open>Evaluation\<close>

lemmas render_defs = parseMarkdown_def escape_html_def replace_unit_def bold_closed italic_closed
  bullet_items_closed numbered_items_closed match_bold_def match_italic_def match_bullet_def
  match_numbered_def at_line_start_def item_text_def wrap_lines_def line_step_def trim_def

lemma js_light_dark: "js ''light'' \<noteq> js ''dark''" "js ''dark'' \<noteq> js ''light''"
  by (simp_all add: js_def)

lemma start_page_theme: "data_theme start_page = js ''light''"
  by (simp add: start_page_def load_theme_def Let_def)

lemma start_page_chat: "chatBox start_page = []" "conversationHelper start_page = []"
  by (simp_all add: start_page_def load_theme_def Let_def)

lemma typed_fields:
  "userInput_value (typed t p) = t"
  "chatBox (typed t p) = chatBox p"
  "conversationHelper (typed t p) = conversationHelper p"
  by (simp_all add: typed_def)

lemma trim_hello: "trim (js ''Hello'') = js ''Hello''"
  by (simp add: trim_def char_defs)

lemma trim_blank: "trim (js ''   '') = []"
  by (simp add: trim_def char_defs)

lemma js_hello: "js ''Hello'' \<noteq> []"
  by (simp add: js_def)

lemma typed_hello: "trim (userInput_value (typed (js ''Hello'') start_page)) = js ''Hello''"
  by (simp add: typed_fields trim_hello)

section \<open>Theme toggle\<close>

lemma start_page_storage: "localStorage start_page (js ''theme'') = None"
  by (simp add: start_page_def load_theme_def Let_def)

text \<open>
  Against C9 as stated: on the page as it is right after loading with nothing stored,
  light is displayed and the storage holds no theme. Two clicks bring the displayed theme
  back to light, but the storage then holds \<^verbatim>\<open>light\<close>: the persisted value is not back
  to what it was.
\<close>

theorem fresh_page_toggle_counterexample:
  "data_theme start_page = js ''light''
   \<and> localStorage start_page (js ''theme'') = None
   \<and> data_theme (toggle_click (toggle_click start_page)) = js ''light''
   \<and> localStorage (toggle_click (toggle_click start_page)) (js ''theme'') = Some (js ''light'')
   \<and> localStorage (toggle_click (toggle_click start_page)) \<noteq> localStorage start_page"
proof -
  have a: "localStorage (toggle_click (toggle_click start_page)) (js ''theme'') = Some (js ''light'')"
    by (simp add: toggle_click_def start_page_theme Let_def js_light_dark)
  have "localStorage (toggle_click (toggle_click start_page)) (js ''theme'') \<noteq>
        localStorage start_page (js ''theme'')"
    by (simp only: a start_page_storage) simp
  then have "localStorage (toggle_click (toggle_click start_page)) \<noteq> localStorage start_page"
    by auto
  moreover have "data_theme (toggle_click (toggle_click start_page)) = js ''light''"
    by (simp add: toggle_click_def start_page_theme Let_def js_light_dark)
  ultimately show ?thesis using a by (simp add: start_page_theme start_page_storage)
qed

text \<open>
  C9, amended: on the two-valued domain each click flips the displayed theme and writes
  the new value to the local storage, and after two clicks the displayed theme is the
  original one.
  The stored value after two clicks is the original displayed theme, whatever was stored
  before: the storage is back to what it was exactly when it held the displayed theme, as
  it does after any click and after loading a stored \<^verbatim>\<open>light\<close> or \<^verbatim>\<open>dark\<close>.
\<close>

theorem toggle_click_involution:
  assumes "data_theme p = js ''light'' \<or> data_theme p = js ''dark''"
  shows "data_theme (toggle_click p) =
           (if data_theme p = js ''light'' then js ''dark'' else js ''light'')
       \<and> localStorage (toggle_click p) (js ''theme'') = Some (data_theme (toggle_click p))
       \<and> data_theme (toggle_click (toggle_click p)) = data_theme p
       \<and> localStorage (toggle_click (toggle_click p)) =
           (localStorage p)(js ''theme'' \<mapsto> data_theme p)
       \<and> (localStorage (toggle_click (toggle_click p)) = localStorage p \<longleftrightarrow>
            localStorage p (js ''theme'') = Some (data_theme p))"
  using assms by (auto simp: toggle_click_def Let_def js_light_dark fun_upd_idem_iff)

text \<open>
  The theorem at the page reached by one click from the start page: dark is displayed and
  stored, and two further clicks restore both.
\<close>

theorem toggle_click_involution_witness:
  "data_theme (toggle_click start_page) = js ''dark''
   \<and> localStorage (toggle_click start_page) (js ''theme'') = Some (js ''dark'')
   \<and> data_theme (toggle_click (toggle_click start_page)) = js ''light''
   \<and> data_theme (toggle_click (toggle_click (toggle_click start_page))) = js ''dark''
   \<and> localStorage (toggle_click (toggle_click (toggle_click start_page))) =
       localStorage (toggle_click start_page)"
proof -
  have d: "data_theme (toggle_click start_page) = js ''dark''"
    by (simp add: toggle_click_def start_page_theme Let_def)
  have s: "localStorage (toggle_click start_page) (js ''theme'') = Some (js ''dark'')"
    by (simp add: toggle_click_def start_page_theme Let_def)
  let ?p = "toggle_click start_page"
  from d have "data_theme ?p = js ''light'' \<or> data_theme ?p = js ''dark''" by simp
  note t = toggle_click_involution [OF this]
  from t have 1: "data_theme (toggle_click ?p) =
      (if data_theme ?p = js ''light'' then js ''dark'' else js ''light'')"
    by (rule conjunct1)
  from t have 2: "data_theme (toggle_click (toggle_click ?p)) = data_theme ?p"
    by blast
  from t have "localStorage (toggle_click (toggle_click ?p)) = localStorage ?p \<longleftrightarrow>
      localStorage ?p (js ''theme'') = Some (data_theme ?p)"
    by blast
  with d s have 3: "localStorage (toggle_click (toggle_click ?p)) = localStorage ?p"
    by simp
  from 1 2 3 d s show ?thesis by (simp add: js_light_dark)
qed

section \<open>The submit handler\<close>

lemma placeholder_update:
  "(xs @ [a, b])[Suc (length xs) := ((xs @ [a, b]) ! Suc (length xs))\<lparr>msg_content := c\<rparr>] =
   xs @ [a, b\<lparr>msg_content := c\<rparr>]"
  by (simp add: list_update_append nth_append)

lemma submit_begin_Some:
  "trim (userInput_value p) \<noteq> [] \<Longrightarrow>
   submit_begin p = Some (Suc (length (chatBox p)),
     p\<lparr>chatBox := chatBox p @
           [\<lparr>msg_class = User, msg_content = TextContent (trim (userInput_value p))\<rparr>,
            \<lparr>msg_class = Model, msg_content = TextContent (js ''Thinking...'')\<rparr>],
        conversationHelper := conversationHelper p @
           [\<lparr>turn_role = User, turn_text = trim (userInput_value p)\<rparr>],
        userInput_value := [],
        userInput_disabled := True,
        submitButton_disabled := True\<rparr>)"
  by (simp add: submit_begin_def Let_def addMessage_def setFormState_def)

text \<open>
  C7: when the value of the input box trims to the empty string, the submission does
  nothing: the handler returns before it touches anything, so the page (conversation,
  display, posted requests, controls) is what it was.
\<close>

theorem blank_submit_noop:
  "trim (userInput_value p) = [] \<Longrightarrow> submit outcome p = p \<and> submit_begin p = None"
  by (simp add: submit_def submit_begin_def)

theorem blank_submit_noop_witness:
  "trim (userInput_value (typed (js ''   '') start_page)) = []
   \<and> submit Rejected (typed (js ''   '') start_page) = typed (js ''   '') start_page"
  using blank_submit_noop [of "typed (js ''   '') start_page" Rejected]
  by (simp add: typed_fields trim_blank)

text \<open>
  C8: after a submission with non-blank input, whatever the outcome of the request, the
  input box and the submit button are enabled and the input box has the focus.
\<close>

theorem controls_reenabled:
  assumes "trim (userInput_value p) \<noteq> []"
  shows "\<not> userInput_disabled (submit outcome p) \<and> \<not> submitButton_disabled (submit outcome p)
         \<and> userInput_focused (submit outcome p)"
  using assms
  by (simp add: submit_def submit_begin_Some setFormState_def split: prod.splits option.splits)

theorem controls_reenabled_witness:
  "trim (userInput_value (typed (js ''Hello'') start_page)) \<noteq> []
   \<and> \<not> userInput_disabled (submit Rejected (typed (js ''Hello'') start_page))
   \<and> \<not> submitButton_disabled (submit Rejected (typed (js ''Hello'') start_page))
   \<and> userInput_focused (submit Rejected (typed (js ''Hello'') start_page))"
  using controls_reenabled [of "typed (js ''Hello'') start_page" Rejected]
  by (simp add: typed_hello js_hello)

text \<open>
  C4: when the request fails in transport or the response has a non-success status, the
  placeholder shows the fixed failure message, the conversation is the old one plus the
  user turn and nothing else, and the controls are enabled again.
\<close>

theorem failed_request:
  assumes "trim (userInput_value p) \<noteq> []"
    and "outcome = Rejected \<or>
         (\<exists>status body. outcome = Response status body \<and> \<not> response_ok status)"
  shows "conversationHelper (submit outcome p) =
           conversationHelper p @ [\<lparr>turn_role = User, turn_text = trim (userInput_value p)\<rparr>]
       \<and> chatBox (submit outcome p) =
           chatBox p @
           [\<lparr>msg_class = User, msg_content = TextContent (trim (userInput_value p))\<rparr>,
            \<lparr>msg_class = Model,
             msg_content = TextContent (js ''Failed to get response from server.'')\<rparr>]
       \<and> \<not> userInput_disabled (submit outcome p) \<and> \<not> submitButton_disabled (submit outcome p)"
  using assms
  by (auto simp: submit_def submit_begin_Some try_block_def catch_block_def set_placeholder_def
      setFormState_def Let_def placeholder_update)

theorem failed_request_witness:
  "conversationHelper (submit (Response 500 None) (typed (js ''Hello'') start_page)) =
     [\<lparr>turn_role = User, turn_text = js ''Hello''\<rparr>]
   \<and> chatBox (submit (Response 500 None) (typed (js ''Hello'') start_page)) =
     [\<lparr>msg_class = User, msg_content = TextContent (js ''Hello'')\<rparr>,
      \<lparr>msg_class = Model,
       msg_content = TextContent (js ''Failed to get response from server.'')\<rparr>]
   \<and> \<not> userInput_disabled (submit (Response 500 None) (typed (js ''Hello'') start_page))"
proof -
  have a: "trim (userInput_value (typed (js ''Hello'') start_page)) \<noteq> []"
    by (simp add: typed_hello js_hello)
  have b: "Response 500 None = Rejected \<or>
           (\<exists>status body. Response 500 None = Response status body \<and> \<not> response_ok status)"
    by (simp add: response_ok_def)
  show ?thesis
    using failed_request [OF a b] by (simp add: typed_fields trim_hello start_page_chat)
qed

text \<open>
  Against C2 as stated: a successful response whose result is the empty string takes the
  branch for a missing result. The placeholder shows the fixed notice, not the rendering
  of the result, and no model turn is stored.
\<close>

theorem empty_result_counterexample:
  "conversationHelper
     (submit (Response 200 (Some (JObject [(js ''result'', JString [])])))
        (typed (js ''Hello'') start_page)) =
     [\<lparr>turn_role = User, turn_text = js ''Hello''\<rparr>]
   \<and> chatBox
     (submit (Response 200 (Some (JObject [(js ''result'', JString [])])))
        (typed (js ''Hello'') start_page)) =
     [\<lparr>msg_class = User, msg_content = TextContent (js ''Hello'')\<rparr>,
      \<lparr>msg_class = Model, msg_content = TextContent (js ''Sorry, no response received.'')\<rparr>]"
proof -
  have a: "trim (userInput_value (typed (js ''Hello'') start_page)) \<noteq> []"
    by (simp add: typed_hello js_hello)
  show ?thesis
    by (simp add: submit_def submit_begin_Some [OF a] try_block_def set_placeholder_def
        setFormState_def Let_def response_ok_def placeholder_update typed_hello)
       (simp add: typed_fields start_page_chat)
qed

text \<open>
  C2, amended: when the response has a success status and its body is an object whose
  result is a non-empty string, the placeholder gets the rendering of the result and a
  model turn with the result is appended after the user turn.
\<close>

theorem successful_request:
  assumes "trim (userInput_value p) \<noteq> []"
    and "response_ok status"
    and "get_result data = Some (JString r)"
    and "r \<noteq> []"
  shows "conversationHelper (submit (Response status (Some data)) p) =
           conversationHelper p @
           [\<lparr>turn_role = User, turn_text = trim (userInput_value p)\<rparr>,
            \<lparr>turn_role = Model, turn_text = r\<rparr>]
       \<and> chatBox (submit (Response status (Some data)) p) =
           chatBox p @
           [\<lparr>msg_class = User, msg_content = TextContent (trim (userInput_value p))\<rparr>,
            \<lparr>msg_class = Model, msg_content = InnerHTML (parseMarkdown r)\<rparr>]"
proof -
  from assms(3) obtain kvs where "data = JObject kvs"
    by (cases data) simp_all
  then have "truthy (Some data)" by simp
  with assms show ?thesis
    by (simp add: submit_def submit_begin_Some try_block_def set_placeholder_def
        setFormState_def Let_def placeholder_update)
qed

lemma render_hi: "parseMarkdown (js ''**Hi**'') = js ''<p><strong>Hi</strong></p>''"
  by (simp add: render_defs char_defs)

theorem successful_request_witness:
  "conversationHelper
     (submit (Response 200 (Some (JObject [(js ''result'', JString (js ''**Hi**''))])))
        (typed (js ''Hello'') start_page)) =
     [\<lparr>turn_role = User, turn_text = js ''Hello''\<rparr>,
      \<lparr>turn_role = Model, turn_text = js ''**Hi**''\<rparr>]
   \<and> chatBox
     (submit (Response 200 (Some (JObject [(js ''result'', JString (js ''**Hi**''))])))
        (typed (js ''Hello'') start_page)) =
     [\<lparr>msg_class = User, msg_content = TextContent (js ''Hello'')\<rparr>,
      \<lparr>msg_class = Model, msg_content = InnerHTML (js ''<p><strong>Hi</strong></p>'')\<rparr>]"
proof -
  have a: "trim (userInput_value (typed (js ''Hello'') start_page)) \<noteq> []"
    by (simp add: typed_hello js_hello)
  have b: "response_ok 200"
    by (simp add: response_ok_def)
  have c: "get_result (JObject [(js ''result'', JString (js ''**Hi**''))]) =
           Some (JString (js ''**Hi**''))"
    by simp
  have d: "js ''**Hi**'' \<noteq> []"
    by (simp add: js_def)
  show ?thesis
    using successful_request [OF a b c d]
    by (simp add: typed_fields trim_hello start_page_chat render_hi)
qed

section \<open>Synchrony of display and conversation\<close>

text \<open>
  Against C3 as stated: a cycle whose request fails leaves two new messages in the chat box
  (the user message and the placeholder with the failure notice) but one new turn in the
  conversation, so display and conversation, in sync before, differ in length after.
\<close>

theorem failed_cycle_counterexample:
  "in_sync (typed (js ''Hello'') start_page)
   \<and> length (chatBox (submit Rejected (typed (js ''Hello'') start_page))) = 2
   \<and> length (conversationHelper (submit Rejected (typed (js ''Hello'') start_page))) = 1
   \<and> \<not> in_sync (submit Rejected (typed (js ''Hello'') start_page))"
proof -
  have a: "trim (userInput_value (typed (js ''Hello'') start_page)) \<noteq> []"
    by (simp add: typed_hello js_hello)
  have c: "chatBox (submit Rejected (typed (js ''Hello'') start_page)) =
     [\<lparr>msg_class = User, msg_content = TextContent (js ''Hello'')\<rparr>,
      \<lparr>msg_class = Model,
       msg_content = TextContent (js ''Failed to get response from server.'')\<rparr>]"
    by (simp add: submit_def submit_begin_Some [OF a] try_block_def catch_block_def
        set_placeholder_def setFormState_def Let_def placeholder_update typed_hello)
       (simp add: typed_fields start_page_chat)
  have h: "conversationHelper (submit Rejected (typed (js ''Hello'') start_page)) =
     [\<lparr>turn_role = User, turn_text = js ''Hello''\<rparr>]"
    by (simp add: submit_def submit_begin_Some [OF a] try_block_def catch_block_def
        set_placeholder_def setFormState_def Let_def placeholder_update typed_hello)
       (simp add: typed_fields start_page_chat)
  show ?thesis
    by (simp add: in_sync_def c h) (simp add: typed_fields start_page_chat)
qed

lemma submit_cases:
  assumes "trim (userInput_value p) \<noteq> []"
    and "\<not> (\<exists>status data r. outcome = Response status (Some data) \<and> response_ok status \<and>
             get_result data = Some (JString r) \<and> r \<noteq> [])"
  shows "conversationHelper (submit outcome p) =
           conversationHelper p @ [\<lparr>turn_role = User, turn_text = trim (userInput_value p)\<rparr>]"
    and "length (chatBox (submit outcome p)) = length (chatBox p) + 2"
  using assms
  by (auto simp: submit_def submit_begin_Some try_block_def catch_block_def set_placeholder_def
      setFormState_def Let_def split: fetch_outcome.splits option.splits jsvalue.splits)

text \<open>
  C3, amended: after a cycle with non-blank input whose response is successful and carries
  a non-empty string result, display and conversation have both grown by two entries and
  are in sync if they were before. After a cycle with any other outcome the user turn is
  appended and no model turn, while the display has grown by two messages (the user
  message and the placeholder with its notice).
\<close>

theorem cycle_sync:
  assumes "trim (userInput_value p) \<noteq> []"
  shows "(\<forall>status data r.
            outcome = Response status (Some data) \<and> response_ok status \<and>
            get_result data = Some (JString r) \<and> r \<noteq> [] \<longrightarrow>
            length (chatBox (submit outcome p)) = length (chatBox p) + 2
          \<and> length (conversationHelper (submit outcome p)) = length (conversationHelper p) + 2
          \<and> (in_sync p \<longrightarrow> in_sync (submit outcome p)))
       \<and> (\<not> (\<exists>status data r.
                outcome = Response status (Some data) \<and> response_ok status \<and>
                get_result data = Some (JString r) \<and> r \<noteq> []) \<longrightarrow>
            conversationHelper (submit outcome p) =
              conversationHelper p @
              [\<lparr>turn_role = User, turn_text = trim (userInput_value p)\<rparr>]
          \<and> length (chatBox (submit outcome p)) = length (chatBox p) + 2)"
proof (intro conjI allI impI)
  fix status data r
  assume s: "outcome = Response status (Some data) \<and> response_ok status \<and>
             get_result data = Some (JString r) \<and> r \<noteq> []"
  from s obtain kvs where "data = JObject kvs" by (cases data) simp_all
  then have t: "truthy (Some data)" by simp
  have c: "conversationHelper (submit outcome p) =
           conversationHelper p @
           [\<lparr>turn_role = User, turn_text = trim (userInput_value p)\<rparr>,
            \<lparr>turn_role = Model, turn_text = r\<rparr>]"
    using assms s t
    by (simp add: submit_def submit_begin_Some try_block_def set_placeholder_def
        setFormState_def Let_def placeholder_update)
  have b: "chatBox (submit outcome p) =
           chatBox p @
           [\<lparr>msg_class = User, msg_content = TextContent (trim (userInput_value p))\<rparr>,
            \<lparr>msg_class = Model, msg_content = InnerHTML (parseMarkdown r)\<rparr>]"
    using assms s t
    by (simp add: submit_def submit_begin_Some try_block_def set_placeholder_def
        setFormState_def Let_def placeholder_update)
  show "length (chatBox (submit outcome p)) = length (chatBox p) + 2"
    by (simp add: b)
  show "length (conversationHelper (submit outcome p)) = length (conversationHelper p) + 2"
    by (simp add: c)
  show "in_sync (submit outcome p)" if "in_sync p"
    using that by (simp add: in_sync_def b c shown_def)
next
  assume n: "\<not> (\<exists>status data r.
                outcome = Response status (Some data) \<and> response_ok status \<and>
                get_result data = Some (JString r) \<and> r \<noteq> [])"
  show "conversationHelper (submit outcome p) =
          conversationHelper p @ [\<lparr>turn_role = User, turn_text = trim (userInput_value p)\<rparr>]"
    using assms n by (rule submit_cases(1))
  show "length (chatBox (submit outcome p)) = length (chatBox p) + 2"
    using assms n by (rule submit_cases(2))
qed

theorem cycle_sync_witness:
  "in_sync (typed (js ''Hello'') start_page)
   \<and> in_sync (submit (Response 200 (Some (JObject [(js ''result'', JString (js ''**Hi**''))])))
               (typed (js ''Hello'') start_page))
   \<and> length (chatBox (submit Rejected (typed (js ''Hello'') start_page))) = 2
   \<and> conversationHelper (submit Rejected (typed (js ''Hello'') start_page)) =
       [\<lparr>turn_role = User, turn_text = js ''Hello''\<rparr>]"
proof -
  let ?p = "typed (js ''Hello'') start_page"
  let ?ok = "Response 200 (Some (JObject [(js ''result'', JString (js ''**Hi**''))]))"
  have a: "trim (userInput_value ?p) \<noteq> []"
    by (simp add: typed_hello js_hello)
  have i: "in_sync ?p"
    by (simp add: in_sync_def typed_fields start_page_chat)
  have s: "?ok = Response 200 (Some (JObject [(js ''result'', JString (js ''**Hi**''))]))
           \<and> response_ok 200
           \<and> get_result (JObject [(js ''result'', JString (js ''**Hi**''))]) =
               Some (JString (js ''**Hi**''))
           \<and> js ''**Hi**'' \<noteq> []"
    by (simp add: response_ok_def) (simp add: js_def)
  have n: "\<not> (\<exists>status data r. Rejected = Response status (Some data) \<and> response_ok status \<and>
               get_result data = Some (JString r) \<and> r \<noteq> [])"
    by simp
  from cycle_sync [OF a, of ?ok] s i have 1: "in_sync (submit ?ok ?p)"
    by blast
  from cycle_sync [OF a, of Rejected] n
  have 2: "conversationHelper (submit Rejected ?p) =
             conversationHelper ?p @ [\<lparr>turn_role = User, turn_text = trim (userInput_value ?p)\<rparr>]
           \<and> length (chatBox (submit Rejected ?p)) = length (chatBox ?p) + 2"
    by blast
  from i 1 2 show ?thesis
    by (simp add: typed_fields trim_hello start_page_chat)
qed

section \<open>Emphasis\<close>

lemma replace_global_prev:
  assumes "\<And>prev s. m prev s = m None s"
  shows "replace_global m repl prev s = replace_global m repl prev' s"
proof (induction s arbitrary: prev prev' rule: length_induct)
  case (1 s)
  show ?case
  proof (cases s)
    case Nil
    then show ?thesis using assms [of prev "[]"] assms [of prev' "[]"] by simp
  next
    case (Cons c cs)
    have m: "m prev (c # cs) = m prev' (c # cs)"
      using assms [of prev "c # cs"] assms [of prev' "c # cs"] by simp
    show ?thesis
    proof (cases "m prev' (c # cs)")
      case None
      then show ?thesis using Cons m by simp
    next
      case (Some a)
      obtain g rest where a: "a = (g, rest)" by (cases a)
      show ?thesis
      proof (cases "length rest \<le> length cs")
        case True
        then have "length rest < length s" using Cons by simp
        from 1 [rule_format, OF this] show ?thesis
          using Cons m Some a True
          by (simp del: last.simps take_Suc_Cons)
      next
        case False
        then show ?thesis using Cons m Some a by simp
      qed
    qed
  qed
qed

lemma lazy_to_star_first:
  "STAR \<notin> set x \<Longrightarrow> \<forall>c\<in>set x. \<not> is_line_terminator c \<Longrightarrow>
   lazy_to_star (x @ STAR # rest) = Some (x, rest)"
  by (induction x) auto

lemma lazy_to_stars_first:
  "STAR \<notin> set x \<Longrightarrow> \<forall>c\<in>set x. \<not> is_line_terminator c \<Longrightarrow>
   lazy_to_stars (x @ STAR # STAR # rest) = Some (x, rest)"
proof (induction x)
  case Nil
  then show ?case by simp
next
  case (Cons a x)
  then show ?case by (cases "x @ STAR # STAR # rest") auto
qed

lemma italic_first:
  assumes "STAR \<notin> set x" "\<forall>c\<in>set x. \<not> is_line_terminator c"
  shows "italic (STAR # x @ STAR # rest) = js ''<em>'' @ x @ js ''</em>'' @ italic rest"
proof -
  have "match_italic None (STAR # x @ STAR # rest) = Some (x, rest)"
    using assms by (simp add: match_italic_def lazy_to_star_first)
  then show ?thesis
    unfolding italic_closed
    by (simp del: last.simps take_Suc_Cons)
       (rule replace_global_prev, simp add: match_italic_def)
qed

lemma bold_first:
  assumes "STAR \<notin> set x" "\<forall>c\<in>set x. \<not> is_line_terminator c"
  shows "bold (STAR # STAR # x @ STAR # STAR # rest) =
         js ''<strong>'' @ x @ js ''</strong>'' @ bold rest"
proof -
  have "match_bold None (STAR # STAR # x @ STAR # STAR # rest) = Some (x, rest)"
    using assms by (simp add: match_bold_def lazy_to_stars_first)
  then show ?thesis
    unfolding bold_closed
    by (simp del: last.simps take_Suc_Cons)
       (rule replace_global_prev, simp add: match_bold_def)
qed

text \<open>
  C6: emphasis is matched lazily, the double asterisks first. \<^verbatim>\<open>**bold**\<close> is rendered
  with \<open>bold\<close> inside a strong-emphasis element, and \<^verbatim>\<open>*a* and *b*\<close> with \<open>a\<close> and \<open>b\<close>
  each in an emphasis element of its own. In general a span that opens with the marker and
  holds neither an asterisk nor a line terminator ends at the first closing marker,
  whatever follows.
\<close>

theorem emphasis_non_greedy:
  "parseMarkdown (js ''**bold**'') = js ''<p><strong>bold</strong></p>''
   \<and> parseMarkdown (js ''*a* and *b*'') = js ''<p><em>a</em> and <em>b</em></p>''
   \<and> (\<forall>x rest. STAR \<notin> set x \<and> (\<forall>c\<in>set x. \<not> is_line_terminator c) \<longrightarrow>
         bold (STAR # STAR # x @ STAR # STAR # rest) =
           js ''<strong>'' @ x @ js ''</strong>'' @ bold rest
       \<and> italic (STAR # x @ STAR # rest) = js ''<em>'' @ x @ js ''</em>'' @ italic rest)"
proof -
  have 1: "parseMarkdown (js ''**bold**'') = js ''<p><strong>bold</strong></p>''"
    by (simp add: render_defs char_defs)
  have 2: "parseMarkdown (js ''*a* and *b*'') = js ''<p><em>a</em> and <em>b</em></p>''"
    by (simp add: render_defs char_defs)
  show ?thesis
    using 1 2 bold_first italic_first by blast
qed

theorem emphasis_non_greedy_witness:
  "STAR \<notin> set (js ''a'')
   \<and> italic (STAR # js ''a'' @ STAR # js '' and *b*'') =
       js ''<em>'' @ js ''a'' @ js ''</em>'' @ italic (js '' and *b*'')
   \<and> italic (js '' and *b*'') = js '' and <em>b</em>''"
proof -
  have a: "STAR \<notin> set (js ''a'') \<and> (\<forall>c\<in>set (js ''a''). \<not> is_line_terminator c)"
    by (simp add: char_defs)
  have b: "italic (js '' and *b*'') = js '' and <em>b</em>''"
    by (simp add: render_defs char_defs)
  show ?thesis
    using emphasis_non_greedy a b by blast
qed

section \<open>The line walk\<close>

lemma walk_in_list:
  "\<forall>l\<in>set xs. str_includes l (js ''<li>'') \<Longrightarrow>
   foldl line_step (html, True) xs = (html @ concat xs, True)"
  by (induction xs arbitrary: html) (simp_all add: line_step_def)

lemma walk_open_list:
  "\<forall>l\<in>set xs. str_includes l (js ''<li>'') \<Longrightarrow> xs \<noteq> [] \<Longrightarrow>
   foldl line_step (html, False) xs = (html @ js ''<ul>'' @ concat xs, True)"
  by (cases xs) (simp_all add: line_step_def walk_in_list)

lemma str_includes_set: "str_includes s sub \<Longrightarrow> set sub \<subseteq> set s"
proof (induction s)
  case Nil
  then show ?case by simp
next
  case (Cons c cs)
  from Cons.prems have "take (length sub) (c # cs) = sub \<or> str_includes cs sub" by simp
  then show ?case
  proof
    assume "take (length sub) (c # cs) = sub"
    then have "set sub = set (take (length sub) (c # cs))" by simp
    then show ?thesis using set_take_subset [of "length sub" "c # cs"] by blast
  next
    assume "str_includes cs sub"
    then show ?thesis using Cons.IH by auto
  qed
qed

lemma dropWhile_rev_nil:
  assumes "dropWhile P (rev (dropWhile P s)) = []"
  shows "\<forall>c\<in>set s. P c"
proof -
  from assms have "\<forall>c\<in>set (dropWhile P s). P c"
    by (simp add: dropWhile_eq_Nil_conv)
  then have "dropWhile P s = []"
    by (metis hd_dropWhile list.set_sel(1))
  then show ?thesis by (simp add: dropWhile_eq_Nil_conv)
qed

lemma trim_nil_iff: "trim s = [] \<longleftrightarrow> (\<forall>c\<in>set s. is_white_space c)"
proof
  assume "trim s = []"
  then have "dropWhile is_white_space (rev (dropWhile is_white_space s)) = []"
    by (simp add: trim_def)
  then show "\<forall>c\<in>set s. is_white_space c"
    by (rule dropWhile_rev_nil)
next
  assume "\<forall>c\<in>set s. is_white_space c"
  then have d: "dropWhile is_white_space s = []" by (induction s) simp_all
  show "trim s = []" unfolding trim_def d by simp
qed

lemma blank_not_item: "trim b = [] \<Longrightarrow> \<not> str_includes b (js ''<li>'')"
proof
  assume b: "trim b = []" and i: "str_includes b (js ''<li>'')"
  from i have "set (js ''<li>'') \<subseteq> set b" by (rule str_includes_set)
  then have "LT \<in> set b" by (auto simp: js_def LT_def)
  with b have "is_white_space LT" by (simp add: trim_nil_iff)
  then show False by (simp add: char_defs)
qed

lemma walk_blank:
  "trim b = [] \<Longrightarrow> line_step (html, True) b = (html @ js ''</ul>'', False)"
  by (simp add: line_step_def blank_not_item)

lemma wrap_items:
  "\<forall>l\<in>set xs. str_includes l (js ''<li>'') \<Longrightarrow> xs \<noteq> [] \<Longrightarrow>
   wrap_lines xs = js ''<ul>'' @ concat xs @ js ''</ul>''"
  by (simp add: wrap_lines_def walk_open_list)

text \<open>
  Against C10 as stated: for \<^verbatim>\<open>"- a\n\n- b"\<close> the renderer produces one list grouping with
  both items, not two groupings.
\<close>

theorem blank_line_consumed_counterexample:
  "parseMarkdown (js ''- a\<newline>\<newline>- b'') = js ''<ul><li>a</li><li>b</li></ul>''
   \<and> parseMarkdown (js ''- a\<newline>\<newline>- b'') \<noteq> js ''<ul><li>a</li></ul><ul><li>b</li></ul>''"
  by (simp add: render_defs char_defs)

text \<open>
  C10, amended: in the line walk a blank line after list lines closes the open grouping,
  emitting nothing for it, and the list lines after it open a new grouping. The blank line
  of \<^verbatim>\<open>"- a\n\n- b"\<close> does not reach the walk: the leading \<^verbatim>\<open>\s*\<close> of the bullet pattern
  consumes it together with the marker that follows, which leaves two adjacent list lines
  and a single grouping with both items.
\<close>

theorem blank_line_splits_walk:
  assumes "xs \<noteq> []" and "ys \<noteq> []"
    and "\<forall>l\<in>set xs. str_includes l (js ''<li>'')"
    and "\<forall>l\<in>set ys. str_includes l (js ''<li>'')"
    and "trim b = []"
  shows "wrap_lines (xs @ b # ys) =
           js ''<ul>'' @ concat xs @ js ''</ul>'' @ js ''<ul>'' @ concat ys @ js ''</ul>''
       \<and> bullet_items (js ''- a\<newline>\<newline>- b'') = js ''<li>a</li>\<newline><li>b</li>''
       \<and> parseMarkdown (js ''- a\<newline>\<newline>- b'') = js ''<ul><li>a</li><li>b</li></ul>''"
proof -
  have "bullet_items (js ''- a\<newline>\<newline>- b'') = js ''<li>a</li>\<newline><li>b</li>''"
    by (simp add: render_defs char_defs)
  moreover
  have "parseMarkdown (js ''- a\<newline>\<newline>- b'') = js ''<ul><li>a</li><li>b</li></ul>''"
    by (simp add: render_defs char_defs)
  ultimately show ?thesis
    using assms by (simp add: wrap_lines_def walk_open_list walk_blank)
qed

theorem blank_line_splits_walk_witness:
  "wrap_lines [js ''<li>a</li>'', [], js ''<li>b</li>''] =
     js ''<ul><li>a</li></ul><ul><li>b</li></ul>''"
proof -
  have i: "\<forall>l\<in>set [js ''<li>a</li>'']. str_includes l (js ''<li>'')"
          "\<forall>l\<in>set [js ''<li>b</li>'']. str_includes l (js ''<li>'')"
    by (simp_all add: js_def)
  have t: "trim [] = []" by (simp add: trim_def)
  show ?thesis
    using blank_line_splits_walk [OF _ _ i t] by (simp add: js_def)
qed

section \<open>Escaping\<close>

lemma safe_append: "markup_safe xs \<Longrightarrow> markup_safe ys \<Longrightarrow> markup_safe (xs @ ys)"
proof (induction xs rule: markup_safe.induct)
  case empty
  then show ?case by simp
next
  case (plain c s)
  then show ?case by (simp add: markup_safe.plain)
next
  case (entity e s)
  then show ?case using markup_safe.entity [of e "s @ ys"] by simp
next
  case (tag t s)
  then show ?case using markup_safe.tag [of t "s @ ys"] by simp
qed

lemma safe_token:
  "t \<in> set entity_refs \<or> t \<in> set generated_tags \<Longrightarrow> markup_safe t"
  using markup_safe.entity [of t "[]"] markup_safe.tag [of t "[]"] markup_safe.empty by auto

lemma neutral_not_in_token:
  "neutral c \<Longrightarrow> t \<in> set entity_refs \<or> t \<in> set generated_tags \<Longrightarrow> c \<notin> set t"
  by (auto simp: neutral_def)

lemma safe_split:
  assumes "markup_safe (xs @ c # ys)" and "neutral c"
  shows "markup_safe xs \<and> markup_safe ys"
  using assms(1)
proof (induction "xs @ c # ys" arbitrary: xs rule: markup_safe.induct)
  case empty
  then show ?case by simp
next
  case (plain d s)
  show ?case
  proof (cases xs)
    case Nil
    with plain show ?thesis by (simp add: markup_safe.empty)
  next
    case (Cons x xs')
    with plain.hyps(6) have "d = x" "s = xs' @ c # ys" by simp_all
    with plain.hyps(5) [of xs'] plain.hyps(1,2,3) Cons show ?thesis
      by (simp add: markup_safe.plain)
  qed
next
  case (entity e s)
  then have tok: "e \<in> set entity_refs \<or> e \<in> set generated_tags" by simp
  from entity.hyps(4) obtain us where
    "(e = xs @ us \<and> us @ s = c # ys) \<or> (e @ us = xs \<and> s = us @ c # ys)"
    by (auto simp: append_eq_append_conv2)
  then show ?case
  proof
    assume a: "e = xs @ us \<and> us @ s = c # ys"
    show ?thesis
    proof (cases us)
      case Nil
      with a have "s = [] @ c # ys" "xs = e" by simp_all
      with entity.hyps(3) [of "[]"] safe_token [OF tok] show ?thesis by simp
    next
      case (Cons u us')
      with a have "c \<in> set e" by auto
      with neutral_not_in_token [OF assms(2) tok] show ?thesis by simp
    qed
  next
    assume a: "e @ us = xs \<and> s = us @ c # ys"
    with entity.hyps(3) [of us] have "markup_safe us \<and> markup_safe ys" by simp
    with a safe_append [OF safe_token [OF tok], of us] show ?thesis by auto
  qed
next
  case (tag e s)
  then have tok: "e \<in> set entity_refs \<or> e \<in> set generated_tags" by simp
  from tag.hyps(4) obtain us where
    "(e = xs @ us \<and> us @ s = c # ys) \<or> (e @ us = xs \<and> s = us @ c # ys)"
    by (auto simp: append_eq_append_conv2)
  then show ?case
  proof
    assume a: "e = xs @ us \<and> us @ s = c # ys"
    show ?thesis
    proof (cases us)
      case Nil
      with a have "s = [] @ c # ys" "xs = e" by simp_all
      with tag.hyps(3) [of "[]"] safe_token [OF tok] show ?thesis by simp
    next
      case (Cons u us')
      with a have "c \<in> set e" by auto
      with neutral_not_in_token [OF assms(2) tok] show ?thesis by simp
    qed
  next
    assume a: "e @ us = xs \<and> s = us @ c # ys"
    with tag.hyps(3) [of us] have "markup_safe us \<and> markup_safe ys" by simp
    with a safe_append [OF safe_token [OF tok], of us] show ?thesis by auto
  qed
qed

lemma token_units:
  "\<forall>d\<in>set (concat (entity_refs @ generated_tags)).
     \<not> is_white_space d \<and> \<not> is_digit d \<and> d \<noteq> STAR \<and> d \<noteq> HYPHEN \<and> d \<noteq> PERIOD"
  by (simp add: entity_refs_def generated_tags_def char_defs)

lemma special_units:
  "\<not> is_white_space AMP" "\<not> is_white_space LT" "\<not> is_white_space GT"
  "\<not> is_digit AMP" "\<not> is_digit LT" "\<not> is_digit GT"
  "STAR \<noteq> AMP" "STAR \<noteq> LT" "STAR \<noteq> GT"
  "HYPHEN \<noteq> AMP" "HYPHEN \<noteq> LT" "HYPHEN \<noteq> GT"
  "PERIOD \<noteq> AMP" "PERIOD \<noteq> LT" "PERIOD \<noteq> GT"
  by (simp_all add: char_defs)

lemma neutral_white_space:
  assumes "is_white_space c"
  shows "neutral c"
proof -
  have "c \<notin> set (concat (entity_refs @ generated_tags))"
    using token_units assms by blast
  moreover have "c \<noteq> AMP" "c \<noteq> LT" "c \<noteq> GT"
    using assms special_units by blast+
  ultimately show ?thesis unfolding neutral_def by blast
qed

lemma neutral_digit:
  assumes "is_digit c"
  shows "neutral c"
proof -
  have "c \<notin> set (concat (entity_refs @ generated_tags))"
    using token_units assms by blast
  moreover have "c \<noteq> AMP" "c \<noteq> LT" "c \<noteq> GT"
    using assms special_units by blast+
  ultimately show ?thesis unfolding neutral_def by blast
qed

lemma neutral_marks: "neutral STAR" "neutral HYPHEN" "neutral PERIOD"
  unfolding neutral_def using token_units special_units by blast+

lemma neutral_line_terminator: "is_line_terminator c \<Longrightarrow> neutral c"
  by (rule neutral_white_space) (simp add: is_white_space_def)

lemma safe_neutral: "neutral c \<Longrightarrow> markup_safe s \<Longrightarrow> markup_safe (c # s)"
  by (simp add: neutral_def markup_safe.plain)

lemma safe_drop_prefix:
  "\<forall>c\<in>set ws. neutral c \<Longrightarrow> markup_safe (ws @ s) \<Longrightarrow> markup_safe s"
proof (induction ws)
  case Nil
  then show ?case by simp
next
  case (Cons w ws)
  from Cons.prems(2) have "markup_safe ([] @ w # (ws @ s))" by simp
  with Cons.prems(1) have "markup_safe (ws @ s)" using safe_split [of "[]" w "ws @ s"] by simp
  with Cons show ?case by simp
qed

lemma safe_drop_suffix:
  "\<forall>c\<in>set ws. neutral c \<Longrightarrow> markup_safe (pre @ ws) \<Longrightarrow> markup_safe pre"
proof (induction ws rule: rev_induct)
  case Nil
  then show ?case by simp
next
  case (snoc w ws)
  from snoc.prems(2) have "markup_safe ((pre @ ws) @ w # [])" by simp
  with snoc.prems(1) have "markup_safe (pre @ ws)" using safe_split [of "pre @ ws" w "[]"] by simp
  with snoc show ?case by simp
qed

lemma replace_global_safe:
  assumes shorter: "\<And>prev s g rest. m prev s = Some (g, rest) \<Longrightarrow> length rest < length s"
    and step: "\<And>prev s g rest pre. m prev s = Some (g, rest) \<Longrightarrow> markup_safe (pre @ s) \<Longrightarrow>
                 markup_safe (pre @ repl g @ rest)"
  shows "markup_safe (pre @ s) \<Longrightarrow> markup_safe (pre @ replace_global m repl prev s)"
proof (induction s arbitrary: pre prev rule: length_induct)
  case (1 s)
  show ?case
  proof (cases s)
    case Nil
    have "m prev [] = None"
    proof (cases "m prev []")
      case (Some a)
      then show ?thesis using shorter [of prev "[]" "fst a" "snd a"] by simp
    qed simp
    with Nil 1 show ?thesis by simp
  next
    case (Cons c cs)
    show ?thesis
    proof (cases "m prev (c # cs)")
      case None
      have "length cs < length s" using Cons by simp
      from 1(1) [rule_format, OF this, of "pre @ [c]" "Some c"] 1(2) Cons None
      show ?thesis by simp
    next
      case (Some a)
      obtain g rest where a: "a = (g, rest)" by (cases a)
      from shorter [of prev "c # cs" g rest] Some a have l: "length rest \<le> length cs" by simp
      then have l': "length rest < length s" using Cons by simp
      from step [of prev "c # cs" g rest pre] Some a 1(2) Cons
      have "markup_safe ((pre @ repl g) @ rest)" by simp
      from 1(1) [rule_format, OF l' this] Cons Some a l
      show ?thesis by (simp del: last.simps take_Suc_Cons)
    qed
  qed
qed

lemma lazy_to_stars_Some:
  "lazy_to_stars s = Some (g, rest) \<Longrightarrow> s = g @ STAR # STAR # rest"
proof (induction s arbitrary: g rule: lazy_to_stars.induct)
  case (1 a b rest')
  then show ?case by (auto split: if_splits)
qed simp_all

lemma lazy_to_star_Some:
  "lazy_to_star s = Some (g, rest) \<Longrightarrow> s = g @ STAR # rest"
  by (induction s arbitrary: g) (auto split: if_splits)

lemma match_bold_Some:
  "match_bold prev s = Some (g, rest) \<Longrightarrow> s = STAR # STAR # g @ STAR # STAR # rest"
  by (auto simp: match_bold_def split: list.splits if_splits dest: lazy_to_stars_Some)

lemma match_italic_Some:
  "match_italic prev s = Some (g, rest) \<Longrightarrow> s = STAR # g @ STAR # rest"
  by (auto simp: match_italic_def split: list.splits if_splits dest: lazy_to_star_Some)

lemma item_text_Some:
  assumes "item_text s = Some (g, rest)"
  shows "\<exists>ws. s = ws @ g @ rest \<and> ws \<noteq> [] \<and> (\<forall>c\<in>set ws. is_white_space c)
           \<and> (\<forall>c\<in>set g. \<not> is_line_terminator c)
           \<and> (rest = [] \<or> is_line_terminator (hd rest))"
proof -
  let ?ws = "takeWhile is_white_space s"
  let ?r = "dropWhile is_white_space s"
  from assms have ne: "?ws \<noteq> []"
    and g: "g = takeWhile (\<lambda>c. \<not> is_line_terminator c) ?r"
    and r: "rest = dropWhile (\<lambda>c. \<not> is_line_terminator c) ?r"
    by (auto simp: item_text_def Let_def split: if_splits)
  have "s = ?ws @ g @ rest" by (simp add: g r)
  moreover have "\<forall>c\<in>set ?ws. is_white_space c" by (auto dest: set_takeWhileD)
  moreover have "\<forall>c\<in>set g. \<not> is_line_terminator c" unfolding g by (auto dest: set_takeWhileD)
  moreover have "rest = [] \<or> is_line_terminator (hd rest)"
    unfolding r using hd_dropWhile [of "\<lambda>c. \<not> is_line_terminator c" ?r] by auto
  ultimately show ?thesis using ne by blast
qed

lemma match_bullet_Some:
  assumes "match_bullet prev s = Some (g, rest)"
  shows "\<exists>ws ws'. s = ws @ HYPHEN # ws' @ g @ rest \<and> (\<forall>c\<in>set ws. is_white_space c)
           \<and> ws' \<noteq> [] \<and> (\<forall>c\<in>set ws'. is_white_space c)
           \<and> (\<forall>c\<in>set g. \<not> is_line_terminator c)
           \<and> (rest = [] \<or> is_line_terminator (hd rest))"
proof -
  let ?ws = "takeWhile is_white_space s"
  from assms obtain r where d: "dropWhile is_white_space s = HYPHEN # r"
    and i: "item_text r = Some (g, rest)"
    by (auto simp: match_bullet_def split: if_splits list.splits)
  from item_text_Some [OF i] obtain ws' where
    "r = ws' @ g @ rest" "ws' \<noteq> []" "\<forall>c\<in>set ws'. is_white_space c"
    "\<forall>c\<in>set g. \<not> is_line_terminator c" "rest = [] \<or> is_line_terminator (hd rest)"
    by blast
  moreover have "s = ?ws @ HYPHEN # r"
    using takeWhile_dropWhile_id [of is_white_space s] d by simp
  moreover have "\<forall>c\<in>set ?ws. is_white_space c" by (auto dest: set_takeWhileD)
  ultimately show ?thesis by blast
qed

lemma match_numbered_Some:
  assumes "match_numbered prev s = Some (g, rest)"
  shows "\<exists>ws ds ws'. s = ws @ ds @ PERIOD # ws' @ g @ rest \<and> (\<forall>c\<in>set ws. is_white_space c)
           \<and> ds \<noteq> [] \<and> (\<forall>c\<in>set ds. is_digit c)
           \<and> ws' \<noteq> [] \<and> (\<forall>c\<in>set ws'. is_white_space c)
           \<and> (\<forall>c\<in>set g. \<not> is_line_terminator c)
           \<and> (rest = [] \<or> is_line_terminator (hd rest))"
proof -
  let ?ws = "takeWhile is_white_space s"
  let ?r = "dropWhile is_white_space s"
  let ?ds = "takeWhile is_digit ?r"
  from assms obtain r where ne: "?ds \<noteq> []" and d: "dropWhile is_digit ?r = PERIOD # r"
    and i: "item_text r = Some (g, rest)"
    by (auto simp: match_numbered_def Let_def split: if_splits list.splits)
  from item_text_Some [OF i] obtain ws' where
    "r = ws' @ g @ rest" "ws' \<noteq> []" "\<forall>c\<in>set ws'. is_white_space c"
    "\<forall>c\<in>set g. \<not> is_line_terminator c" "rest = [] \<or> is_line_terminator (hd rest)"
    by blast
  moreover have "?r = ?ds @ PERIOD # r"
    using takeWhile_dropWhile_id [of is_digit ?r] d by simp
  then have "s = ?ws @ ?ds @ PERIOD # r"
    using takeWhile_dropWhile_id [of is_white_space s] by simp
  moreover have "\<forall>c\<in>set ?ws. is_white_space c" by (auto dest: set_takeWhileD)
  moreover have "\<forall>c\<in>set ?ds. is_digit c" by (auto dest: set_takeWhileD)
  ultimately show ?thesis using ne by blast
qed

lemma safe_tags:
  "markup_safe (js ''<strong>'')" "markup_safe (js ''</strong>'')"
  "markup_safe (js ''<em>'')" "markup_safe (js ''</em>'')"
  "markup_safe (js ''<li>'')" "markup_safe (js ''</li>'')"
  "markup_safe (js ''<ul>'')" "markup_safe (js ''</ul>'')"
  "markup_safe (js ''<p>'')" "markup_safe (js ''</p>'')"
  by (rule safe_token, simp add: generated_tags_def)+

lemma safe_entities:
  "markup_safe (js ''&amp;'')" "markup_safe (js ''&lt;'')" "markup_safe (js ''&gt;'')"
  by (rule safe_token, simp add: entity_refs_def)+

lemma safe_wrap:
  assumes "markup_safe pre" "markup_safe open_tag" "markup_safe g" "markup_safe close_tag"
    "markup_safe rest"
  shows "markup_safe (pre @ (open_tag @ g @ close_tag) @ rest)"
  using assms by (simp add: safe_append)

lemma bold_pieces:
  assumes "match_bold prev s = Some (g, rest)" and "markup_safe (pre @ s)"
  shows "markup_safe pre \<and> markup_safe g \<and> markup_safe rest"
proof -
  from match_bold_Some [OF assms(1)] assms(2)
  have a: "markup_safe (pre @ STAR # STAR # g @ STAR # STAR # rest)" by simp
  from safe_split [OF a neutral_marks(1)]
  have p: "markup_safe pre" and "markup_safe ([] @ STAR # (g @ STAR # STAR # rest))" by simp_all
  from safe_split [OF this(2) neutral_marks(1)]
  have "markup_safe (g @ STAR # STAR # rest)" by simp
  from safe_split [OF this neutral_marks(1)]
  have g: "markup_safe g" and "markup_safe ([] @ STAR # rest)" by simp_all
  from safe_split [OF this(2) neutral_marks(1)] have r: "markup_safe rest" by simp
  from p g r show ?thesis by simp
qed

lemma bold_step:
  assumes "match_bold prev s = Some (g, rest)" and "markup_safe (pre @ s)"
  shows "markup_safe (pre @ (js ''<strong>'' @ g @ js ''</strong>'') @ rest)"
proof -
  from bold_pieces [OF assms]
  have p: "markup_safe pre" and g: "markup_safe g" and r: "markup_safe rest" by simp_all
  show ?thesis by (rule safe_wrap [OF p safe_tags(1) g safe_tags(2) r])
qed

lemma italic_pieces:
  assumes "match_italic prev s = Some (g, rest)" and "markup_safe (pre @ s)"
  shows "markup_safe pre \<and> markup_safe g \<and> markup_safe rest"
proof -
  from match_italic_Some [OF assms(1)] assms(2)
  have a: "markup_safe (pre @ STAR # g @ STAR # rest)" by simp
  from safe_split [OF a neutral_marks(1)]
  have p: "markup_safe pre" and "markup_safe (g @ STAR # rest)" by simp_all
  from safe_split [OF this(2) neutral_marks(1)]
  have g: "markup_safe g" and r: "markup_safe rest" by simp_all
  from p g r show ?thesis by simp
qed

lemma italic_step:
  assumes "match_italic prev s = Some (g, rest)" and "markup_safe (pre @ s)"
  shows "markup_safe (pre @ (js ''<em>'' @ g @ js ''</em>'') @ rest)"
proof -
  from italic_pieces [OF assms]
  have p: "markup_safe pre" and g: "markup_safe g" and r: "markup_safe rest" by simp_all
  show ?thesis by (rule safe_wrap [OF p safe_tags(3) g safe_tags(4) r])
qed

lemma safe_item_rest:
  assumes "markup_safe (g @ rest)" and "rest = [] \<or> is_line_terminator (hd rest)"
  shows "markup_safe g \<and> markup_safe rest"
proof (cases rest)
  case Nil
  with assms show ?thesis by (simp add: markup_safe.empty)
next
  case (Cons c cs)
  with assms(2) have n: "neutral c" by (simp add: neutral_line_terminator)
  from assms(1) Cons have "markup_safe (g @ c # cs)" by simp
  from safe_split [OF this n] Cons n show ?thesis by (simp add: safe_neutral)
qed

lemma bullet_pieces:
  assumes "match_bullet prev s = Some (g, rest)" and "markup_safe (pre @ s)"
  shows "markup_safe pre \<and> markup_safe g \<and> markup_safe rest"
proof -
  from match_bullet_Some [OF assms(1)] obtain ws ws' where
    s: "s = ws @ HYPHEN # ws' @ g @ rest"
    and ws: "\<forall>c\<in>set ws. is_white_space c" and ws': "\<forall>c\<in>set ws'. is_white_space c"
    and e: "rest = [] \<or> is_line_terminator (hd rest)"
    by blast
  from assms(2) s have "markup_safe ((pre @ ws) @ HYPHEN # (ws' @ g @ rest))" by simp
  from safe_split [OF this neutral_marks(2)]
  have 1: "markup_safe (pre @ ws)" and 2: "markup_safe (ws' @ g @ rest)" by simp_all
  have p: "markup_safe pre"
    using ws 1 by (blast intro: safe_drop_suffix neutral_white_space)
  have "markup_safe (g @ rest)"
    using ws' 2 by (blast intro: safe_drop_prefix neutral_white_space)
  from safe_item_rest [OF this e] p show ?thesis by simp
qed

lemma bullet_step:
  assumes "match_bullet prev s = Some (g, rest)" and "markup_safe (pre @ s)"
  shows "markup_safe (pre @ (js ''<li>'' @ g @ js ''</li>'') @ rest)"
proof -
  from bullet_pieces [OF assms]
  have p: "markup_safe pre" and g: "markup_safe g" and r: "markup_safe rest" by simp_all
  show ?thesis by (rule safe_wrap [OF p safe_tags(5) g safe_tags(6) r])
qed

lemma numbered_pieces:
  assumes "match_numbered prev s = Some (g, rest)" and "markup_safe (pre @ s)"
  shows "markup_safe pre \<and> markup_safe g \<and> markup_safe rest"
proof -
  from match_numbered_Some [OF assms(1)] obtain ws ds ws' where
    s: "s = ws @ ds @ PERIOD # ws' @ g @ rest"
    and ws: "\<forall>c\<in>set ws. is_white_space c" and ds: "\<forall>c\<in>set ds. is_digit c"
    and ws': "\<forall>c\<in>set ws'. is_white_space c"
    and e: "rest = [] \<or> is_line_terminator (hd rest)"
    by blast
  from assms(2) s have "markup_safe ((pre @ ws @ ds) @ PERIOD # (ws' @ g @ rest))" by simp
  from safe_split [OF this neutral_marks(3)]
  have 1: "markup_safe ((pre @ ws) @ ds)" and 2: "markup_safe (ws' @ g @ rest)" by simp_all
  have "markup_safe (pre @ ws)"
    using ds 1 by (blast intro: safe_drop_suffix neutral_digit)
  then have p: "markup_safe pre"
    using ws by (blast intro: safe_drop_suffix neutral_white_space)
  have "markup_safe (g @ rest)"
    using ws' 2 by (blast intro: safe_drop_prefix neutral_white_space)
  from safe_item_rest [OF this e] p show ?thesis by simp
qed

lemma numbered_step:
  assumes "match_numbered prev s = Some (g, rest)" and "markup_safe (pre @ s)"
  shows "markup_safe (pre @ (js ''<li>'' @ g @ js ''</li>'') @ rest)"
proof -
  from numbered_pieces [OF assms]
  have p: "markup_safe pre" and g: "markup_safe g" and r: "markup_safe rest" by simp_all
  show ?thesis by (rule safe_wrap [OF p safe_tags(5) g safe_tags(6) r])
qed

lemma match_shorter:
  "match_bold prev s = Some (g, rest) \<Longrightarrow> length rest < length s"
  "match_italic prev s = Some (g, rest) \<Longrightarrow> length rest < length s"
  "match_bullet prev s = Some (g, rest) \<Longrightarrow> length rest < length s"
  "match_numbered prev s = Some (g, rest) \<Longrightarrow> length rest < length s"
proof -
  show "match_bold prev s = Some (g, rest) \<Longrightarrow> length rest < length s"
    by (drule match_bold_Some) simp
  show "match_italic prev s = Some (g, rest) \<Longrightarrow> length rest < length s"
    by (drule match_italic_Some) simp
  show "match_bullet prev s = Some (g, rest) \<Longrightarrow> length rest < length s"
    by (drule match_bullet_Some) auto
  show "match_numbered prev s = Some (g, rest) \<Longrightarrow> length rest < length s"
    by (drule match_numbered_Some) auto
qed

lemma bold_safe: "markup_safe s \<Longrightarrow> markup_safe (bold s)"
  unfolding bold_closed
  using replace_global_safe [of match_bold _ "[]" s None, OF match_shorter(1) bold_step]
  by simp

lemma italic_safe: "markup_safe s \<Longrightarrow> markup_safe (italic s)"
  unfolding italic_closed
  using replace_global_safe [of match_italic _ "[]" s None, OF match_shorter(2) italic_step]
  by simp

lemma bullet_items_safe: "markup_safe s \<Longrightarrow> markup_safe (bullet_items s)"
  unfolding bullet_items_closed
  using replace_global_safe [of match_bullet _ "[]" s None, OF match_shorter(3) bullet_step]
  by simp

lemma numbered_items_safe: "markup_safe s \<Longrightarrow> markup_safe (numbered_items s)"
  unfolding numbered_items_closed
  using replace_global_safe [of match_numbered _ "[]" s None, OF match_shorter(4) numbered_step]
  by simp

lemma replace_unit_Cons:
  "replace_unit c r (x # s) = (if x = c then r else [x]) @ replace_unit c r s"
  by (simp add: replace_unit_def)

lemma replace_unit_append:
  "replace_unit c r (xs @ ys) = replace_unit c r xs @ replace_unit c r ys"
  by (simp add: replace_unit_def)

lemma replace_unit_Nil: "replace_unit c r [] = []"
  by (simp add: replace_unit_def)

lemma replace_unit_id: "c \<notin> set s \<Longrightarrow> replace_unit c r s = s"
  by (induction s) (auto simp: replace_unit_Cons replace_unit_Nil)

lemma escape_html_Nil: "escape_html [] = []"
  by (simp add: escape_html_def replace_unit_Nil)

lemma escape_html_Cons:
  "escape_html (x # s) =
     (if x = AMP then js ''&amp;'' else if x = LT then js ''&lt;''
      else if x = GT then js ''&gt;'' else [x]) @ escape_html s"
proof -
  have a: "replace_unit GT (js ''&gt;'') (replace_unit LT (js ''&lt;'') (js ''&amp;'')) = js ''&amp;''"
    "replace_unit GT (js ''&gt;'') (js ''&lt;'') = js ''&lt;''"
    "LT \<noteq> AMP" "GT \<noteq> AMP" "GT \<noteq> LT"
    by (simp_all add: replace_unit_def char_defs)
  show ?thesis
    by (simp add: escape_html_def replace_unit_Cons replace_unit_append replace_unit_Nil a)
qed

lemma escape_html_safe: "markup_safe (escape_html s)"
proof (induction s)
  case Nil
  show ?case by (simp add: escape_html_Nil markup_safe.empty)
next
  case (Cons x s)
  have "markup_safe (if x = AMP then js ''&amp;'' else if x = LT then js ''&lt;''
      else if x = GT then js ''&gt;'' else [x])"
    by (simp add: safe_entities markup_safe.plain markup_safe.empty)
  with Cons show ?case by (simp only: escape_html_Cons safe_append)
qed

lemma split_lines_nonempty: "split_lines s \<noteq> []"
  by (induction s) (simp_all split: list.splits)

lemma split_lines_safe:
  "markup_safe (pre @ s) \<Longrightarrow>
   markup_safe (pre @ hd (split_lines s)) \<and> (\<forall>l\<in>set (tl (split_lines s)). markup_safe l)"
proof (induction s arbitrary: pre)
  case Nil
  then show ?case by simp
next
  case (Cons c cs)
  show ?case
  proof (cases "c = NEWLINE")
    case True
    have n: "neutral c" using True by (simp add: neutral_white_space char_defs)
    from safe_split [OF Cons.prems n] have p: "markup_safe pre" and "markup_safe ([] @ cs)"
      by simp_all
    from Cons.IH [OF this(2)] have "\<forall>l\<in>set (split_lines cs). markup_safe l"
      by (cases "split_lines cs") simp_all
    with p True show ?thesis by simp
  next
    case False
    from Cons.prems have "markup_safe ((pre @ [c]) @ cs)" by simp
    from Cons.IH [OF this] False split_lines_nonempty [of cs] show ?thesis
      by (cases "split_lines cs") simp_all
  qed
qed

lemma split_lines_all_safe:
  assumes "markup_safe s"
  shows "\<forall>l\<in>set (split_lines s). markup_safe l"
proof -
  from split_lines_nonempty [of s] split_lines_safe [of "[]" s] assms show ?thesis
    by (cases "split_lines s") simp_all
qed

lemma line_step_safe:
  "markup_safe html \<Longrightarrow> markup_safe line \<Longrightarrow> markup_safe (fst (line_step (html, b) line))"
  by (simp add: line_step_def safe_append safe_tags)

lemma walk_safe:
  "markup_safe html \<Longrightarrow> \<forall>l\<in>set ls. markup_safe l \<Longrightarrow>
   markup_safe (fst (foldl line_step (html, b) ls))"
proof (induction ls arbitrary: html b)
  case Nil
  then show ?case by simp
next
  case (Cons l ls)
  obtain h b' where s: "line_step (html, b) l = (h, b')" by (cases "line_step (html, b) l")
  with line_step_safe [of html l b] Cons.prems have "markup_safe h" by simp
  with Cons s show ?case by simp
qed

lemma wrap_lines_safe:
  assumes "\<forall>l\<in>set ls. markup_safe l"
  shows "markup_safe (wrap_lines ls)"
proof -
  obtain h b where f: "foldl line_step ([], False) ls = (h, b)"
    by (cases "foldl line_step ([], False) ls")
  with walk_safe [OF markup_safe.empty assms, of False] have "markup_safe h" by simp
  with f show ?thesis by (simp add: wrap_lines_def safe_append safe_tags)
qed

lemma escape_html_no_angle: "LT \<notin> set (escape_html s) \<and> GT \<notin> set (escape_html s)"
  by (induction s) (simp_all add: escape_html_Nil escape_html_Cons char_defs)

text \<open>
  The later steps keep the entity references: they remove marker characters and white space
  and insert tags, none of which holds \<^verbatim>\<open>&\<close>.
\<close>

lemma entities_of_plain: "c \<noteq> AMP \<Longrightarrow> entities_of (c # s) = entities_of s"
  by simp

lemma entities_of_no_amp: "AMP \<notin> set ns \<Longrightarrow> entities_of (ns @ s) = entities_of s"
  by (induction ns) auto

lemma entities_of_entity:
  "entities_of (js ''&amp;'' @ s) = AMP # entities_of s"
  "entities_of (js ''&lt;'' @ s) = LT # entities_of s"
  "entities_of (js ''&gt;'' @ s) = GT # entities_of s"
  by (simp_all add: js_def AMP_def)

lemma tag_no_amp: "t \<in> set generated_tags \<Longrightarrow> AMP \<notin> set t"
  by (auto simp: generated_tags_def js_def AMP_def)

lemma entities_of_append:
  "markup_safe xs \<Longrightarrow> entities_of (xs @ ys) = entities_of xs @ entities_of ys"
proof (induction xs rule: markup_safe.induct)
  case empty
  show ?case by simp
next
  case (plain c s)
  then show ?case by simp
next
  case (entity e s)
  from entity.hyps(1) have "e = js ''&amp;'' \<or> e = js ''&lt;'' \<or> e = js ''&gt;''"
    by (simp add: entity_refs_def)
  then show ?case
    using entity.IH entities_of_entity [of "s @ ys"] entities_of_entity [of s] by auto
next
  case (tag t s)
  from tag_no_amp [OF tag.hyps(1)] tag.IH show ?case
    using entities_of_no_amp [of t "s @ ys"] entities_of_no_amp [of t s] by simp
qed

lemma entities_of_wrap:
  assumes "markup_safe pre" "markup_safe g" "AMP \<notin> set a" "AMP \<notin> set b"
  shows "entities_of (pre @ a @ g @ b @ rest) = entities_of pre @ entities_of g @ entities_of rest"
  using assms by (simp add: entities_of_append entities_of_no_amp)

lemma escape_html_units: "escape_html s = concat (map escape_unit s)"
  by (induction s) (simp_all add: escape_html_Nil escape_html_Cons escape_unit_def)

lemma entities_of_escape_html: "entities_of (escape_html s) = filter special s"
proof (induction s)
  case Nil
  show ?case by (simp add: escape_html_Nil)
next
  case (Cons x s)
  have d: "AMP \<noteq> LT" "AMP \<noteq> GT" "LT \<noteq> GT" by (simp_all add: char_defs)
  show ?case
    using Cons d entities_of_entity [of "escape_html s"]
    by (simp only: escape_html_Cons special_def filter.simps) (auto simp del: entities_of.simps simp: entities_of_plain)
qed


lemma white_space_no_amp: "\<forall>c\<in>set ws. is_white_space c \<Longrightarrow> AMP \<notin> set ws"
  using special_units(1) by blast

lemma digits_no_amp: "\<forall>c\<in>set ds. is_digit c \<Longrightarrow> AMP \<notin> set ds"
  using special_units(4) by blast

lemma tags_no_amp:
  "AMP \<notin> set (js ''<strong>'')" "AMP \<notin> set (js ''</strong>'')"
  "AMP \<notin> set (js ''<em>'')" "AMP \<notin> set (js ''</em>'')"
  "AMP \<notin> set (js ''<li>'')" "AMP \<notin> set (js ''</li>'')"
  "AMP \<notin> set (js ''<ul>'')" "AMP \<notin> set (js ''</ul>'')"
  "AMP \<notin> set (js ''<p>'')" "AMP \<notin> set (js ''</p>'')"
  by (rule tag_no_amp, simp add: generated_tags_def)+

lemma bold_entities:
  assumes "match_bold prev s = Some (g, rest)" and "markup_safe (pre @ s)"
  shows "entities_of (pre @ (js ''<strong>'' @ g @ js ''</strong>'') @ rest) = entities_of (pre @ s)"
proof -
  from bold_pieces [OF assms] have p: "markup_safe pre" and g: "markup_safe g" by simp_all
  have m: "AMP \<notin> set [STAR, STAR]" using special_units(7) by simp
  have "s = [STAR, STAR] @ g @ [STAR, STAR] @ rest"
    using match_bold_Some [OF assms(1)] by simp
  then have "entities_of (pre @ s) = entities_of pre @ entities_of g @ entities_of rest"
    using entities_of_wrap [OF p g m m, of rest] by simp
  moreover have "entities_of (pre @ (js ''<strong>'' @ g @ js ''</strong>'') @ rest) =
      entities_of pre @ entities_of g @ entities_of rest"
    using entities_of_wrap [OF p g tags_no_amp(1) tags_no_amp(2), of rest] by simp
  ultimately show ?thesis by simp
qed

lemma italic_entities:
  assumes "match_italic prev s = Some (g, rest)" and "markup_safe (pre @ s)"
  shows "entities_of (pre @ (js ''<em>'' @ g @ js ''</em>'') @ rest) = entities_of (pre @ s)"
proof -
  from italic_pieces [OF assms] have p: "markup_safe pre" and g: "markup_safe g" by simp_all
  have m: "AMP \<notin> set [STAR]" using special_units(7) by simp
  have "s = [STAR] @ g @ [STAR] @ rest"
    using match_italic_Some [OF assms(1)] by simp
  then have "entities_of (pre @ s) = entities_of pre @ entities_of g @ entities_of rest"
    using entities_of_wrap [OF p g m m, of rest] by simp
  moreover have "entities_of (pre @ (js ''<em>'' @ g @ js ''</em>'') @ rest) =
      entities_of pre @ entities_of g @ entities_of rest"
    using entities_of_wrap [OF p g tags_no_amp(3) tags_no_amp(4), of rest] by simp
  ultimately show ?thesis by simp
qed

lemma bullet_entities:
  assumes "match_bullet prev s = Some (g, rest)" and "markup_safe (pre @ s)"
  shows "entities_of (pre @ (js ''<li>'' @ g @ js ''</li>'') @ rest) = entities_of (pre @ s)"
proof -
  from bullet_pieces [OF assms] have p: "markup_safe pre" and g: "markup_safe g" by simp_all
  from match_bullet_Some [OF assms(1)] obtain ws ws' where
    s: "s = ws @ HYPHEN # ws' @ g @ rest"
    and ws: "\<forall>c\<in>set ws. is_white_space c" and ws': "\<forall>c\<in>set ws'. is_white_space c"
    by blast
  have m: "AMP \<notin> set (ws @ HYPHEN # ws')"
    using white_space_no_amp [OF ws] white_space_no_amp [OF ws'] special_units(10) by simp
  have e: "AMP \<notin> set []" by simp
  from s have "s = (ws @ HYPHEN # ws') @ g @ [] @ rest" by simp
  then have "entities_of (pre @ s) = entities_of pre @ entities_of g @ entities_of rest"
    using entities_of_wrap [OF p g m e, of rest] by simp
  moreover have "entities_of (pre @ (js ''<li>'' @ g @ js ''</li>'') @ rest) =
      entities_of pre @ entities_of g @ entities_of rest"
    using entities_of_wrap [OF p g tags_no_amp(5) tags_no_amp(6), of rest] by simp
  ultimately show ?thesis by simp
qed

lemma numbered_entities:
  assumes "match_numbered prev s = Some (g, rest)" and "markup_safe (pre @ s)"
  shows "entities_of (pre @ (js ''<li>'' @ g @ js ''</li>'') @ rest) = entities_of (pre @ s)"
proof -
  from numbered_pieces [OF assms] have p: "markup_safe pre" and g: "markup_safe g" by simp_all
  from match_numbered_Some [OF assms(1)] obtain ws ds ws' where
    s: "s = ws @ ds @ PERIOD # ws' @ g @ rest"
    and ws: "\<forall>c\<in>set ws. is_white_space c" and ds: "\<forall>c\<in>set ds. is_digit c"
    and ws': "\<forall>c\<in>set ws'. is_white_space c"
    by blast
  have m: "AMP \<notin> set (ws @ ds @ PERIOD # ws')"
    using white_space_no_amp [OF ws] white_space_no_amp [OF ws'] digits_no_amp [OF ds]
      special_units(13) by simp
  have e: "AMP \<notin> set []" by simp
  from s have "s = (ws @ ds @ PERIOD # ws') @ g @ [] @ rest" by simp
  then have "entities_of (pre @ s) = entities_of pre @ entities_of g @ entities_of rest"
    using entities_of_wrap [OF p g m e, of rest] by simp
  moreover have "entities_of (pre @ (js ''<li>'' @ g @ js ''</li>'') @ rest) =
      entities_of pre @ entities_of g @ entities_of rest"
    using entities_of_wrap [OF p g tags_no_amp(5) tags_no_amp(6), of rest] by simp
  ultimately show ?thesis by simp
qed

lemma replace_global_entities:
  assumes shorter: "\<And>prev s g rest. m prev s = Some (g, rest) \<Longrightarrow> length rest < length s"
    and step: "\<And>prev s g rest pre. m prev s = Some (g, rest) \<Longrightarrow> markup_safe (pre @ s) \<Longrightarrow>
                 markup_safe (pre @ repl g @ rest)"
    and same: "\<And>prev s g rest pre. m prev s = Some (g, rest) \<Longrightarrow> markup_safe (pre @ s) \<Longrightarrow>
                 entities_of (pre @ repl g @ rest) = entities_of (pre @ s)"
  shows "markup_safe (pre @ s) \<Longrightarrow>
         entities_of (pre @ replace_global m repl prev s) = entities_of (pre @ s)"
proof (induction s arbitrary: pre prev rule: length_induct)
  case (1 s)
  show ?case
  proof (cases s)
    case Nil
    have "m prev [] = None"
    proof (cases "m prev []")
      case (Some a)
      then show ?thesis using shorter [of prev "[]" "fst a" "snd a"] by simp
    qed simp
    with Nil 1 show ?thesis by simp
  next
    case (Cons c cs)
    show ?thesis
    proof (cases "m prev (c # cs)")
      case None
      have "length cs < length s" using Cons by simp
      from 1(1) [rule_format, OF this, of "pre @ [c]" "Some c"] 1(2) Cons None
      show ?thesis by simp
    next
      case (Some a)
      obtain g rest where a: "a = (g, rest)" by (cases a)
      from shorter [of prev "c # cs" g rest] Some a have l: "length rest \<le> length cs" by simp
      then have l': "length rest < length s" using Cons by simp
      from step [of prev "c # cs" g rest pre] Some a 1(2) Cons
      have safe: "markup_safe ((pre @ repl g) @ rest)" by simp
      from same [of prev "c # cs" g rest pre] Some a 1(2) Cons
      have e: "entities_of ((pre @ repl g) @ rest) = entities_of (pre @ s)" by simp
      from 1(1) [rule_format, OF l' safe] e Cons Some a l
      show ?thesis by (simp del: last.simps take_Suc_Cons entities_of.simps)
    qed
  qed
qed

lemma bold_same_entities: "markup_safe s \<Longrightarrow> entities_of (bold s) = entities_of s"
  unfolding bold_closed
  using replace_global_entities [of match_bold _ "[]" s None, OF match_shorter(1) bold_step bold_entities]
  by simp

lemma italic_same_entities: "markup_safe s \<Longrightarrow> entities_of (italic s) = entities_of s"
  unfolding italic_closed
  using replace_global_entities [of match_italic _ "[]" s None, OF match_shorter(2) italic_step italic_entities]
  by simp

lemma bullet_items_same_entities: "markup_safe s \<Longrightarrow> entities_of (bullet_items s) = entities_of s"
  unfolding bullet_items_closed
  using replace_global_entities [of match_bullet _ "[]" s None, OF match_shorter(3) bullet_step bullet_entities]
  by simp

lemma numbered_items_same_entities: "markup_safe s \<Longrightarrow> entities_of (numbered_items s) = entities_of s"
  unfolding numbered_items_closed
  using replace_global_entities [of match_numbered _ "[]" s None, OF match_shorter(4) numbered_step numbered_entities]
  by simp

lemma split_lines_entities:
  "markup_safe (pre @ s) \<Longrightarrow>
   entities_of (pre @ s) =
     entities_of (pre @ hd (split_lines s)) @ concat (map entities_of (tl (split_lines s)))"
proof (induction s arbitrary: pre)
  case Nil
  then show ?case by simp
next
  case (Cons c cs)
  show ?case
  proof (cases "c = NEWLINE")
    case True
    have n: "neutral c" using True by (simp add: neutral_white_space char_defs)
    then have a: "c \<noteq> AMP" by (simp add: neutral_def)
    from safe_split [OF Cons.prems n] have p: "markup_safe pre" and "markup_safe ([] @ cs)"
      by simp_all
    from Cons.IH [OF this(2)] split_lines_nonempty [of cs]
    have "entities_of cs = concat (map entities_of (split_lines cs))"
      by (cases "split_lines cs") simp_all
    with p a True show ?thesis by (simp add: entities_of_append del: entities_of.simps add: entities_of_plain)
  next
    case False
    from Cons.prems have "markup_safe ((pre @ [c]) @ cs)" by simp
    from Cons.IH [OF this] False split_lines_nonempty [of cs] show ?thesis
      by (cases "split_lines cs") simp_all
  qed
qed

lemma split_lines_all_entities:
  assumes "markup_safe s"
  shows "concat (map entities_of (split_lines s)) = entities_of s"
proof -
  from split_lines_nonempty [of s] split_lines_entities [of "[]" s] assms show ?thesis
    by (cases "split_lines s") simp_all
qed

lemma blank_line_entities: "trim line = [] \<Longrightarrow> entities_of line = []"
  using entities_of_no_amp [of line "[]"] white_space_no_amp [of line]
  by (simp add: trim_nil_iff)

lemma line_step_entities:
  assumes "markup_safe html" "markup_safe line"
  shows "entities_of (fst (line_step (html, b) line)) = entities_of html @ entities_of line"
proof -
  have t: "\<And>t x. AMP \<notin> set t \<Longrightarrow> entities_of (html @ t @ x) = entities_of html @ entities_of x"
    using assms(1) by (simp add: entities_of_append entities_of_no_amp)
  have p: "entities_of (html @ js ''<p>'' @ line @ js ''</p>'') = entities_of html @ entities_of line"
    using entities_of_wrap [OF assms(1) assms(2) tags_no_amp(9) tags_no_amp(10), of "[]"] by simp
  have q: "entities_of ((html @ js ''</ul>'') @ js ''<p>'' @ line @ js ''</p>'') =
      entities_of html @ entities_of line"
    using entities_of_wrap [OF safe_append [OF assms(1) safe_tags(8)] assms(2) tags_no_amp(9) tags_no_amp(10), of "[]"]
      t [OF tags_no_amp(8), of "[]"] by simp
  show ?thesis
    using t [OF tags_no_amp(7), of line] t [OF tags_no_amp(8), of "[]"] p q assms(1)
    by (simp add: line_step_def entities_of_append blank_line_entities del: entities_of.simps(2))
qed

lemma walk_entities:
  "markup_safe html \<Longrightarrow> \<forall>l\<in>set ls. markup_safe l \<Longrightarrow>
   entities_of (fst (foldl line_step (html, b) ls)) = entities_of html @ concat (map entities_of ls)"
proof (induction ls arbitrary: html b)
  case Nil
  then show ?case by simp
next
  case (Cons l ls)
  obtain h b' where s: "line_step (html, b) l = (h, b')" by (cases "line_step (html, b) l")
  with line_step_safe [of html l b] Cons.prems have h: "markup_safe h" by simp
  from s line_step_entities [of html l b] Cons.prems
  have "entities_of h = entities_of html @ entities_of l" by simp
  with Cons.IH [OF h, of b'] Cons.prems s show ?case by simp
qed

lemma wrap_lines_entities:
  assumes "\<forall>l\<in>set ls. markup_safe l"
  shows "entities_of (wrap_lines ls) = concat (map entities_of ls)"
proof -
  obtain h b where f: "foldl line_step ([], False) ls = (h, b)"
    by (cases "foldl line_step ([], False) ls")
  from walk_safe [OF markup_safe.empty assms, of False] f have h: "markup_safe h" by simp
  from walk_entities [OF markup_safe.empty assms, of False] f
  have "entities_of h = concat (map entities_of ls)" by simp
  with f h tags_no_amp(8) show ?thesis
    by (simp add: wrap_lines_def entities_of_append entities_of_no_amp [of _ "[]", simplified])
qed

text \<open>The inductive notion and the function that checks it agree.\<close>

lemma strip_prefix_Some: "strip_prefix t s = Some r \<longleftrightarrow> s = t @ r"
  by (induction t s rule: strip_prefix.induct) auto

lemma token_nonempty: "t \<in> set (entity_refs @ generated_tags) \<Longrightarrow> t \<noteq> []"
  by (auto simp: entity_refs_def generated_tags_def js_def)

lemma token_head: "t \<in> set (entity_refs @ generated_tags) \<Longrightarrow> hd t = AMP \<or> hd t = LT"
  by (auto simp: entity_refs_def generated_tags_def js_def AMP_def LT_def)

lemma check_markup_safe: "check_markup s \<Longrightarrow> markup_safe s"
proof (induction s rule: check_markup.induct)
  case 1
  show ?case by (rule markup_safe.empty)
next
  case (2 c cs)
  show ?case
  proof (cases "c = AMP \<or> c = LT \<or> c = GT")
    case True
    with "2.prems" obtain t r where t: "t \<in> set (entity_refs @ generated_tags)"
      and s: "strip_prefix t (c # cs) = Some r" and l: "length r < length (c # cs)"
      and c: "check_markup r"
      by (auto simp: list_ex_iff split: option.splits if_splits)
    from "2.IH"(1) [OF True t s l c] have "markup_safe r" .
    moreover from s have "c # cs = t @ r" by (simp add: strip_prefix_Some)
    ultimately show ?thesis
      using t markup_safe.entity [of t r] markup_safe.tag [of t r] by auto
  next
    case False
    with 2 show ?thesis by (simp add: markup_safe.plain)
  qed
qed

lemma token_checked:
  assumes t: "t \<in> set (entity_refs @ generated_tags)" and s: "check_markup s"
  shows "check_markup (t @ s)"
proof -
  from token_nonempty [OF t] obtain c t' where e: "t = c # t'" by (cases t) auto
  with token_head [OF t] have c: "c = AMP \<or> c = LT \<or> c = GT" by auto
  have "strip_prefix t (t @ s) = Some s" by (simp add: strip_prefix_Some)
  with t s c e show ?thesis
    by (auto simp: list_ex_iff intro!: bexI [of _ t])
qed

lemma markup_safe_check: "markup_safe s \<Longrightarrow> check_markup s"
proof (induction s rule: markup_safe.induct)
  case empty
  show ?case by simp
next
  case (plain c s)
  then show ?case by simp
next
  case (entity e s)
  then show ?case using token_checked [of e s] by simp
next
  case (tag t s)
  then show ?case using token_checked [of t s] by simp
qed

lemma markup_safe_iff_check: "markup_safe s \<longleftrightarrow> check_markup s"
  using check_markup_safe markup_safe_check by blast

text \<open>Markup with a tag that the renderer does not generate is not safe.\<close>

lemma foreign_tag_not_safe: "\<not> markup_safe (js ''<b>'')"
proof
  assume "markup_safe (js ''<b>'')"
  then show False
    by (cases rule: markup_safe.cases)
       (auto simp: js_def entity_refs_def generated_tags_def AMP_def LT_def GT_def
          Cons_eq_append_conv)
qed

lemma render_script:
  "parseMarkdown (js ''<script>&'') = js ''<p>&lt;script&gt;&amp;</p>''"
  by (simp add: render_defs char_defs)

lemma script_entities: "entities_of (js ''<p>&lt;script&gt;&amp;</p>'') = [LT, GT, AMP]"
  by (simp add: js_def AMP_def)

text \<open>
  C1: for every input, each \<^verbatim>\<open>&\<close>, \<^verbatim>\<open><\<close> and \<^verbatim>\<open>>\<close> of the input appears in the output in
  entity form and in no other way. The output is safe markup: these three characters occur
  in it only inside entity references and inside the tags that the renderer generates. The
  entity references of the output stand, one for one and in order, for the occurrences of
  the three characters in the input. The escaping step runs first: it rewrites the input
  code unit by code unit and leaves no \<^verbatim>\<open><\<close> and no \<^verbatim>\<open>>\<close> at all, so every one that the
  output holds was written by a later step as part of a tag.
\<close>

theorem parseMarkdown_escapes:
  "markup_safe (parseMarkdown s)
   \<and> entities_of (parseMarkdown s) = filter special s
   \<and> parseMarkdown s =
       (if s = [] then []
        else wrap_lines (split_lines (numbered_items (bullet_items (italic (bold
               (concat (map escape_unit s))))))))
   \<and> escape_html s = concat (map escape_unit s)
   \<and> LT \<notin> set (escape_html s) \<and> GT \<notin> set (escape_html s)"
proof -
  let ?a = "escape_html s" let ?b = "bold ?a" let ?c = "italic ?b"
  let ?d = "bullet_items ?c" let ?e = "numbered_items ?d"
  have a: "markup_safe ?a" by (rule escape_html_safe)
  then have b: "markup_safe ?b" by (rule bold_safe)
  then have c: "markup_safe ?c" by (rule italic_safe)
  then have d: "markup_safe ?d" by (rule bullet_items_safe)
  then have e: "markup_safe ?e" by (rule numbered_items_safe)
  then have l: "\<forall>l\<in>set (split_lines ?e). markup_safe l" by (rule split_lines_all_safe)
  have 1: "markup_safe (parseMarkdown s)"
    using l by (simp add: parseMarkdown_def markup_safe.empty wrap_lines_safe)
  have "entities_of ?e = filter special s"
    using a b c d
    by (simp only: numbered_items_same_entities bullet_items_same_entities italic_same_entities
        bold_same_entities entities_of_escape_html)
  then have 2: "entities_of (parseMarkdown s) = filter special s"
    using l e by (simp add: parseMarkdown_def wrap_lines_entities split_lines_all_entities)
  have 3: "parseMarkdown s =
      (if s = [] then []
       else wrap_lines (split_lines (numbered_items (bullet_items (italic (bold
              (concat (map escape_unit s))))))))"
    by (simp only: parseMarkdown_def escape_html_units)
  from 1 2 3 escape_html_units [of s] escape_html_no_angle [of s] show ?thesis
    by (intro conjI) simp_all
qed

text \<open>
  The theorem at \<^verbatim>\<open><script>&\<close>: the output is \<^verbatim>\<open><p>&lt;script&gt;&amp;</p>\<close>, whose entity
  references stand for the three special characters of the input.
\<close>

theorem parseMarkdown_escapes_witness:
  "markup_safe (js ''<p>&lt;script&gt;&amp;</p>'')
   \<and> entities_of (js ''<p>&lt;script&gt;&amp;</p>'') = [LT, GT, AMP]
   \<and> filter special (js ''<script>&'') = [LT, GT, AMP]
   \<and> escape_html (js ''<script>&'') = js ''&lt;script&gt;&amp;''"
proof -
  note t = parseMarkdown_escapes [of "js ''<script>&''"]
  from t have "markup_safe (parseMarkdown (js ''<script>&''))"
    by (rule conjunct1)
  then have 1: "markup_safe (js ''<p>&lt;script&gt;&amp;</p>'')"
    by (simp only: render_script)
  from t have "entities_of (parseMarkdown (js ''<script>&'')) = filter special (js ''<script>&'')"
    by blast
  then have 2: "filter special (js ''<script>&'') = [LT, GT, AMP]"
    by (simp only: render_script script_entities)
  have 3: "escape_html (js ''<script>&'') = js ''&lt;script&gt;&amp;''"
    by (simp add: escape_html_def replace_unit_def char_defs)
  from 1 2 3 script_entities show ?thesis by (intro conjI)
qed

section \<open>Lists\<close>

subsection \<open>Patterns anchored at the start of a line\<close>

lemma replace_global_None:
  "m prev (c # cs) = None \<Longrightarrow> replace_global m repl prev (c # cs) = c # replace_global m repl (Some c) cs"
  by simp

lemma replace_global_Some:
  "m prev (x @ rest) = Some (g, rest) \<Longrightarrow> x \<noteq> [] \<Longrightarrow>
   replace_global m repl prev (x @ rest) = repl g @ replace_global m repl (Some (last x)) rest"
proof -
  assume a: "m prev (x @ rest) = Some (g, rest)" and x: "x \<noteq> []"
  then obtain c cs where c: "x = c # cs" by (cases x) auto
  have "take (Suc (length (cs @ rest)) - length rest) (c # cs @ rest) = c # cs"
    by simp
  with a c show ?thesis
    by (simp del: last.simps take_Suc_Cons replace_global.simps add: replace_global.simps(2) [of m repl prev c "cs @ rest"])
qed

lemma interior_copy:
  assumes anchored: "\<And>prev s. \<not> at_line_start prev \<Longrightarrow> m prev s = None"
  shows "lt_free x \<Longrightarrow> \<not> at_line_start prev \<Longrightarrow>
         replace_global m repl prev (x @ rest) =
           x @ replace_global m repl (if x = [] then prev else Some (last x)) rest"
proof (induction x arbitrary: prev)
  case Nil
  then show ?case by simp
next
  case (Cons c cs)
  have n: "\<not> at_line_start (Some c)" using Cons.prems(1) by (simp add: at_line_start_def lt_free_def)
  have l: "lt_free cs" using Cons.prems(1) by (simp add: lt_free_def)
  from Cons.IH [OF l n] anchored [OF Cons.prems(2)] show ?case by simp
qed

lemma replace_global_anchor:
  assumes "m prev s = m prev' s"
  shows "replace_global m repl prev s = replace_global m repl prev' s"
  using assms by (cases s) (simp_all del: last.simps take_Suc_Cons)

lemma line_end:
  assumes anchored: "\<And>prev s. \<not> at_line_start prev \<Longrightarrow> m prev s = None"
    and "\<not> at_line_start prev"
  shows "replace_global m repl prev [] = []"
    and "replace_global m repl prev (NEWLINE # rest) = NEWLINE # replace_global m repl (Some NEWLINE) rest"
  using anchored [OF assms(2)] by simp_all

lemma not_start_after:
  "lt_free x \<Longrightarrow> x \<noteq> [] \<Longrightarrow> \<not> at_line_start (Some (last x))"
  by (simp add: at_line_start_def lt_free_def)

lemma line_copy:
  assumes anchored: "\<And>prev s. \<not> at_line_start prev \<Longrightarrow> m prev s = None"
    and "x \<noteq> []" and "lt_free x" and "m prev (x @ rest) = None"
  shows "replace_global m repl prev (x @ rest) = x @ replace_global m repl (Some (last x)) rest"
proof -
  from assms(2) obtain c cs where x: "x = c # cs" by (cases x) auto
  have n: "\<not> at_line_start (Some c)" using assms(3) x by (simp add: at_line_start_def lt_free_def)
  have l: "lt_free cs" using assms(3) x by (simp add: lt_free_def)
  from interior_copy [of m cs "Some c" repl rest, OF anchored l n] assms(4) x
  show ?thesis by simp
qed

lemma join_lines_Cons:
  "ls \<noteq> [] \<Longrightarrow> join_lines (l # ls) = l @ NEWLINE # join_lines ls"
  by (cases ls) simp_all

lemma start_NEWLINE: "at_line_start (Some NEWLINE)" "at_line_start None"
  by (simp_all add: at_line_start_def char_defs)

lemma anchored_lines:
  assumes anchored: "\<And>prev s. \<not> at_line_start prev \<Longrightarrow> m prev s = None"
    and same: "\<And>prev s. at_line_start prev \<Longrightarrow> m prev s = m None s"
    and lines: "\<forall>it\<in>set its. src it \<noteq> [] \<and> lt_free (src it) \<and>
        (\<forall>rest'. rest' = [] \<or> (\<exists>rest. rest' = NEWLINE # rest) \<longrightarrow>
           (m None (src it @ rest') = None \<and> out it = src it) \<or>
           (\<exists>g. m None (src it @ rest') = Some (g, rest') \<and> out it = repl g))"
    and "its \<noteq> []"
  shows "at_line_start prev \<Longrightarrow>
         replace_global m repl prev (join_lines (map src its)) = join_lines (map out its)"
  using lines \<open>its \<noteq> []\<close>
proof (induction its arbitrary: prev)
  case Nil
  then show ?case by simp
next
  case (Cons it its)
  let ?x = "src it"
  from Cons.prems(2) have x: "?x \<noteq> []" "lt_free ?x" by simp_all
  have e: "\<not> at_line_start (Some (last ?x))" using x by (simp add: not_start_after)
  have step: "replace_global m repl prev (?x @ rest') =
                out it @ replace_global m repl (Some (last ?x)) rest'"
    if r: "rest' = [] \<or> (\<exists>rest. rest' = NEWLINE # rest)" for rest'
  proof -
    have "it \<in> set (it # its)" by simp
    with Cons.prems(2)
    have "src it \<noteq> [] \<and> lt_free (src it) \<and>
        (\<forall>rest'. rest' = [] \<or> (\<exists>rest. rest' = NEWLINE # rest) \<longrightarrow>
           (m None (src it @ rest') = None \<and> out it = src it) \<or>
           (\<exists>g. m None (src it @ rest') = Some (g, rest') \<and> out it = repl g))"
      by (rule bspec)
    then have "rest' = [] \<or> (\<exists>rest. rest' = NEWLINE # rest) \<longrightarrow>
           (m None (src it @ rest') = None \<and> out it = src it) \<or>
           (\<exists>g. m None (src it @ rest') = Some (g, rest') \<and> out it = repl g)"
      by (elim conjE allE [of _ rest'])
    with r
    have "(m None (?x @ rest') = None \<and> out it = ?x) \<or>
          (\<exists>g. m None (?x @ rest') = Some (g, rest') \<and> out it = repl g)"
      by (rule rev_mp)
    then show ?thesis
    proof
      assume a: "m None (?x @ rest') = None \<and> out it = ?x"
      then have "m prev (?x @ rest') = None" using same [OF Cons.prems(1)] by simp
      from line_copy [of m ?x prev rest' repl, OF anchored x this] a show ?thesis by simp
    next
      assume "\<exists>g. m None (?x @ rest') = Some (g, rest') \<and> out it = repl g"
      then obtain g where a: "m None (?x @ rest') = Some (g, rest')" "out it = repl g" by blast
      then have "m prev (?x @ rest') = Some (g, rest')" using same [OF Cons.prems(1)] by simp
      from replace_global_Some [of m prev ?x rest' g repl, OF this x(1)] a show ?thesis by simp
    qed
  qed
  show ?case
  proof (cases its)
    case Nil
    from step [of "[]"] line_end(1) [of m "Some (last ?x)" repl, OF anchored e] Nil
    show ?thesis by simp
  next
    case (Cons it' its')
    then have ne: "its \<noteq> []" by simp
    from Cons.prems(2) have "\<forall>it\<in>set its. src it \<noteq> [] \<and> lt_free (src it) \<and>
        (\<forall>rest'. rest' = [] \<or> (\<exists>rest. rest' = NEWLINE # rest) \<longrightarrow>
           (m None (src it @ rest') = None \<and> out it = src it) \<or>
           (\<exists>g. m None (src it @ rest') = Some (g, rest') \<and> out it = repl g))"
      by simp
    from Cons.IH [OF start_NEWLINE(1) this ne]
    have ih: "replace_global m repl (Some NEWLINE) (join_lines (map src its)) =
              join_lines (map out its)" .
    from step [of "NEWLINE # join_lines (map src its)"]
      line_end(2) [of m "Some (last ?x)" repl, OF anchored e] ih ne
    show ?thesis by (simp add: join_lines_Cons)
  qed
qed

subsection \<open>The emphasis steps work line by line\<close>

lemma NEWLINE_terminator: "is_line_terminator NEWLINE" "NEWLINE \<noteq> STAR"
  by (simp_all add: char_defs)

lemma lazy_to_stars_at_end: "lazy_to_stars (NEWLINE # rest) = None"
  by (cases rest) (simp_all add: NEWLINE_terminator)

lemma lazy_to_stars_local:
  "lt_free x \<Longrightarrow>
   lazy_to_stars (x @ NEWLINE # rest) =
     map_option (\<lambda>(g, r). (g, r @ NEWLINE # rest)) (lazy_to_stars x)"
proof (induction x rule: lazy_to_stars.induct)
  case (1 a b r)
  then show ?case
    by (auto simp: lt_free_def option.map_comp comp_def case_prod_unfold)
qed (simp_all add: lazy_to_stars_at_end lt_free_def NEWLINE_terminator)

lemma lazy_to_star_local:
  "lt_free x \<Longrightarrow>
   lazy_to_star (x @ NEWLINE # rest) =
     map_option (\<lambda>(g, r). (g, r @ NEWLINE # rest)) (lazy_to_star x)"
  by (induction x)
     (auto simp: lt_free_def NEWLINE_terminator option.map_comp comp_def case_prod_unfold)

lemma match_bold_local:
  "lt_free x \<Longrightarrow>
   match_bold None (x @ NEWLINE # rest) =
     map_option (\<lambda>(g, r). (g, r @ NEWLINE # rest)) (match_bold None x)"
proof (cases x)
  case Nil
  then show ?thesis
    by (cases rest) (simp_all add: match_bold_def NEWLINE_terminator)
next
  case (Cons a x')
  assume l: "lt_free x"
  show ?thesis
  proof (cases x')
    case Nil
    with Cons show ?thesis by (simp add: match_bold_def NEWLINE_terminator)
  next
    case (Cons b x'')
    with \<open>x = a # x'\<close> l have "lt_free x''" by (simp add: lt_free_def)
    with Cons \<open>x = a # x'\<close> show ?thesis
      by (simp add: match_bold_def lazy_to_stars_local)
  qed
qed

lemma match_italic_local:
  "lt_free x \<Longrightarrow>
   match_italic None (x @ NEWLINE # rest) =
     map_option (\<lambda>(g, r). (g, r @ NEWLINE # rest)) (match_italic None x)"
proof (cases x)
  case Nil
  then show ?thesis by (simp add: match_italic_def NEWLINE_terminator)
next
  case (Cons a x')
  assume "lt_free x"
  with Cons have "lt_free x'" by (simp add: lt_free_def)
  with Cons show ?thesis by (simp add: match_italic_def lazy_to_star_local)
qed

lemma free_lines:
  assumes free: "\<And>prev s. m prev s = m None s"
    and local: "\<And>x rest. lt_free x \<Longrightarrow>
        m None (x @ NEWLINE # rest) = map_option (\<lambda>(g, r). (g, r @ NEWLINE # rest)) (m None x)"
    and shorter: "\<And>s g r. m None s = Some (g, r) \<Longrightarrow> length r < length s \<and> (lt_free s \<longrightarrow> lt_free r)"
  shows "lt_free x \<Longrightarrow>
         replace_global m repl prev (x @ NEWLINE # rest) =
           replace_global m repl prev x @ NEWLINE # replace_global m repl prev rest"
proof (induction x arbitrary: prev rule: length_induct)
  case (1 x)
  note indep = replace_global_prev [of m, OF free]
  show ?case
  proof (cases x)
    case Nil
    have "m None [] = None"
    proof (cases "m None []")
      case (Some a)
      then show ?thesis using shorter [of "[]" "fst a" "snd a"] by simp
    qed simp
    then have e: "m prev [] = None" using free [of prev "[]"] by simp
    from local [of "[]" rest] \<open>m None [] = None\<close>
    have "m prev (NEWLINE # rest) = None" using free [of prev "NEWLINE # rest"] by (simp add: lt_free_def)
    with e Nil indep [of repl "Some NEWLINE" rest prev] show ?thesis by simp
  next
    case (Cons c cs)
    have lx: "lt_free (c # cs)" using 1(2) Cons by simp
    have loc: "m prev (c # cs @ NEWLINE # rest) =
               map_option (\<lambda>(g, r). (g, r @ NEWLINE # rest)) (m prev (c # cs))"
      using local [OF lx, of rest] free [of prev "c # cs @ NEWLINE # rest"] free [of prev "c # cs"]
      by simp
    show ?thesis
    proof (cases "m prev (c # cs)")
      case None
      have "length cs < length x" using Cons by simp
      moreover have "lt_free cs" using lx by (simp add: lt_free_def)
      ultimately have "replace_global m repl (Some c) (cs @ NEWLINE # rest) =
           replace_global m repl (Some c) cs @ NEWLINE # replace_global m repl (Some c) rest"
        using 1(1) by blast
      with None loc Cons indep [of repl "Some c" rest prev] show ?thesis by simp
    next
      case (Some a)
      obtain g r where a: "a = (g, r)" by (cases a)
      from shorter [of "c # cs" g r] Some a free [of prev "c # cs"] lx
      have l: "length r < length (c # cs)" and lr: "lt_free r" by simp_all
      then have l': "length r < length x" using Cons by simp
      let ?p = "Some (last (take (Suc (length cs) - length r) (c # cs)))"
      let ?q = "Some (last (take (Suc (length (cs @ NEWLINE # rest)) - length (r @ NEWLINE # rest))
                  (c # cs @ NEWLINE # rest)))"
      from 1(1) l' lr
      have ih: "replace_global m repl ?q (r @ NEWLINE # rest) =
           replace_global m repl ?q r @ NEWLINE # replace_global m repl ?q rest"
        by blast
      have 2: "replace_global m repl prev (c # cs) = repl g @ replace_global m repl ?p r"
        using Some a l by (simp del: last.simps take_Suc_Cons)
      have 3: "replace_global m repl prev (c # cs @ NEWLINE # rest) =
               repl g @ replace_global m repl ?q (r @ NEWLINE # rest)"
        using loc Some a l by (simp del: last.simps take_Suc_Cons)
      show ?thesis
        using Cons 2 3 ih indep [of repl ?q r ?p] indep [of repl ?q rest prev] by simp
    qed
  qed
qed

lemma lazy_to_stars_rest:
  "lazy_to_stars s = Some (g, r) \<Longrightarrow> length r < length s \<and> (lt_free s \<longrightarrow> lt_free g \<and> lt_free r)"
  by (drule lazy_to_stars_Some) (auto simp: lt_free_def)

lemma match_bold_rest:
  "match_bold prev s = Some (g, r) \<Longrightarrow> length r < length s \<and> (lt_free s \<longrightarrow> lt_free g \<and> lt_free r)"
  by (drule match_bold_Some) (auto simp: lt_free_def)

lemma match_italic_rest:
  "match_italic prev s = Some (g, r) \<Longrightarrow> length r < length s \<and> (lt_free s \<longrightarrow> lt_free g \<and> lt_free r)"
  by (drule match_italic_Some) (auto simp: lt_free_def)

lemma bold_line:
  assumes "lt_free x"
  shows "bold (x @ NEWLINE # rest) = bold x @ NEWLINE # bold rest"
  unfolding bold_closed
proof (rule free_lines [OF _ _ _ assms])
  show "match_bold prev s = match_bold None s" for prev s by (simp add: match_bold_def)
  show "lt_free x \<Longrightarrow> match_bold None (x @ NEWLINE # rest) =
          map_option (\<lambda>(g, r). (g, r @ NEWLINE # rest)) (match_bold None x)" for x rest
    by (rule match_bold_local)
  show "match_bold None s = Some (g, r) \<Longrightarrow> length r < length s \<and> (lt_free s \<longrightarrow> lt_free r)" for s g r
    using match_bold_rest [of None s g r] by simp
qed

lemma italic_line:
  assumes "lt_free x"
  shows "italic (x @ NEWLINE # rest) = italic x @ NEWLINE # italic rest"
  unfolding italic_closed
proof (rule free_lines [OF _ _ _ assms])
  show "match_italic prev s = match_italic None s" for prev s by (simp add: match_italic_def)
  show "lt_free x \<Longrightarrow> match_italic None (x @ NEWLINE # rest) =
          map_option (\<lambda>(g, r). (g, r @ NEWLINE # rest)) (match_italic None x)" for x rest
    by (rule match_italic_local)
  show "match_italic None s = Some (g, r) \<Longrightarrow> length r < length s \<and> (lt_free s \<longrightarrow> lt_free r)" for s g r
    using match_italic_rest [of None s g r] by simp
qed

lemma bold_Nil: "bold [] = []"
  by (simp add: bold_closed match_bold_def)

lemma italic_Nil: "italic [] = []"
  by (simp add: italic_closed match_italic_def)

lemma match_bold_other: "c \<noteq> STAR \<Longrightarrow> match_bold prev (c # s) = None"
  by (cases s) (simp_all add: match_bold_def)

lemma match_italic_other: "c \<noteq> STAR \<Longrightarrow> match_italic prev (c # s) = None"
  by (simp add: match_italic_def)

lemma bold_skip: "STAR \<notin> set p \<Longrightarrow> bold (p @ y) = p @ bold y"
  unfolding bold_closed
proof (induction p)
  case Nil
  then show ?case by simp
next
  case (Cons c p)
  let ?r = "\<lambda>g. js ''<strong>'' @ g @ js ''</strong>''"
  have "c \<noteq> STAR" using Cons.prems by auto
  then have "match_bold None (c # p @ y) = None" by (rule match_bold_other)
  then have "replace_global match_bold ?r None (c # p @ y) =
             c # replace_global match_bold ?r (Some c) (p @ y)"
    by (rule replace_global_None)
  also have "replace_global match_bold ?r (Some c) (p @ y) =
             replace_global match_bold ?r None (p @ y)"
    by (rule replace_global_prev) (simp add: match_bold_def)
  also have "\<dots> = p @ replace_global match_bold ?r None y"
    using Cons by simp
  finally show ?case by simp
qed

lemma italic_skip: "STAR \<notin> set p \<Longrightarrow> italic (p @ y) = p @ italic y"
  unfolding italic_closed
proof (induction p)
  case Nil
  then show ?case by simp
next
  case (Cons c p)
  let ?r = "\<lambda>g. js ''<em>'' @ g @ js ''</em>''"
  have "c \<noteq> STAR" using Cons.prems by auto
  then have "match_italic None (c # p @ y) = None" by (rule match_italic_other)
  then have "replace_global match_italic ?r None (c # p @ y) =
             c # replace_global match_italic ?r (Some c) (p @ y)"
    by (rule replace_global_None)
  also have "replace_global match_italic ?r (Some c) (p @ y) =
             replace_global match_italic ?r None (p @ y)"
    by (rule replace_global_prev) (simp add: match_italic_def)
  also have "\<dots> = p @ replace_global match_italic ?r None y"
    using Cons by simp
  finally show ?case by simp
qed

lemma lt_free_append: "lt_free (xs @ ys) \<longleftrightarrow> lt_free xs \<and> lt_free ys"
  by (auto simp: lt_free_def)

lemma lt_free_tags:
  "lt_free (js ''<strong>'')" "lt_free (js ''</strong>'')" "lt_free (js ''<em>'')"
  "lt_free (js ''</em>'')" "lt_free (js ''<li>'')" "lt_free (js ''</li>'')"
  "lt_free (js ''&amp;'')" "lt_free (js ''&lt;'')" "lt_free (js ''&gt;'')"
  by (simp_all add: lt_free_def char_defs)

lemma replace_global_lt_free:
  assumes step: "\<And>prev s g rest. m prev s = Some (g, rest) \<Longrightarrow>
       length rest < length s \<and> (lt_free s \<longrightarrow> lt_free (repl g) \<and> lt_free rest)"
  shows "lt_free s \<Longrightarrow> lt_free (replace_global m repl prev s)"
proof (induction s arbitrary: prev rule: length_induct)
  case (1 s)
  show ?case
  proof (cases s)
    case Nil
    have "m prev [] = None"
    proof (cases "m prev []")
      case (Some a)
      then show ?thesis using step [of prev "[]" "fst a" "snd a"] by simp
    qed simp
    with Nil show ?thesis by (simp add: lt_free_def)
  next
    case (Cons c cs)
    have lc: "lt_free [c]" "lt_free cs" using 1(2) Cons by (simp_all add: lt_free_def)
    show ?thesis
    proof (cases "m prev (c # cs)")
      case None
      have "length cs < length s" using Cons by simp
      with 1(1) lc(2) have "lt_free (replace_global m repl (Some c) cs)" by blast
      with None Cons lc(1) show ?thesis using lt_free_append [of "[c]"] by simp
    next
      case (Some a)
      obtain g rest where a: "a = (g, rest)" by (cases a)
      from step [of prev "c # cs" g rest] Some a 1(2) Cons
      have l: "length rest < length (c # cs)" and lg: "lt_free (repl g)" and lr: "lt_free rest"
        by simp_all
      then have "length rest < length s" using Cons by simp
      with 1(1) lr
      have "lt_free (replace_global m repl
              (Some (last (take (Suc (length cs) - length rest) (c # cs)))) rest)"
        by blast
      with Some a l lg Cons show ?thesis
        by (simp del: last.simps take_Suc_Cons add: lt_free_append)
    qed
  qed
qed

lemma bold_lt_free:
  assumes "lt_free s"
  shows "lt_free (bold s)"
  unfolding bold_closed
proof (rule replace_global_lt_free [OF _ assms])
  fix prev s g rest
  assume "match_bold prev s = Some (g, rest)"
  from match_bold_rest [OF this]
  show "length rest < length s \<and>
        (lt_free s \<longrightarrow> lt_free (js ''<strong>'' @ g @ js ''</strong>'') \<and> lt_free rest)"
    by (simp add: lt_free_append lt_free_tags)
qed

lemma italic_lt_free:
  assumes "lt_free s"
  shows "lt_free (italic s)"
  unfolding italic_closed
proof (rule replace_global_lt_free [OF _ assms])
  fix prev s g rest
  assume "match_italic prev s = Some (g, rest)"
  from match_italic_rest [OF this]
  show "length rest < length s \<and>
        (lt_free s \<longrightarrow> lt_free (js ''<em>'' @ g @ js ''</em>'') \<and> lt_free rest)"
    by (simp add: lt_free_append lt_free_tags)
qed

lemma escape_html_append: "escape_html (xs @ ys) = escape_html xs @ escape_html ys"
  by (simp add: escape_html_def replace_unit_append)

lemma escape_html_lt_free: "lt_free s \<Longrightarrow> lt_free (escape_html s)"
proof (induction s)
  case Nil
  then show ?case by (simp add: escape_html_Nil)
next
  case (Cons c s)
  then have "lt_free [c]" "lt_free (escape_html s)" by (simp_all add: lt_free_def)
  then show ?case by (simp add: escape_html_Cons lt_free_append lt_free_tags)
qed

lemma escape_html_plain:
  "AMP \<notin> set s \<Longrightarrow> LT \<notin> set s \<Longrightarrow> GT \<notin> set s \<Longrightarrow> escape_html s = s"
  by (induction s) (auto simp: escape_html_Nil escape_html_Cons)

lemma inline_lt_free: "lt_free s \<Longrightarrow> lt_free (inline s)"
  by (simp add: inline_def italic_lt_free bold_lt_free escape_html_lt_free)

subsection \<open>The first code unit of a rendered text\<close>

lemma not_space_units: "\<not> is_white_space AMP" "\<not> is_white_space LT"
  by (simp_all add: char_defs)

lemma hd_tags:
  "js ''&amp;'' @ s \<noteq> [] \<and> hd (js ''&amp;'' @ s) = AMP"
  "js ''&lt;'' @ s \<noteq> [] \<and> hd (js ''&lt;'' @ s) = AMP"
  "js ''&gt;'' @ s \<noteq> [] \<and> hd (js ''&gt;'' @ s) = AMP"
  "js ''<strong>'' @ s \<noteq> [] \<and> hd (js ''<strong>'' @ s) = LT"
  "js ''<em>'' @ s \<noteq> [] \<and> hd (js ''<em>'' @ s) = LT"
  "js ''<li>'' @ s \<noteq> [] \<and> hd (js ''<li>'' @ s) = LT"
  by (simp_all add: js_def AMP_def LT_def)

lemma escape_html_head:
  assumes "s \<noteq> []" and "\<not> is_white_space (hd s)"
  shows "escape_html s \<noteq> [] \<and> \<not> is_white_space (hd (escape_html s))"
proof -
  from assms(1) obtain c cs where s: "s = c # cs" by (cases s) auto
  show ?thesis
    using assms(2) hd_tags(1,2,3) [of "escape_html cs"] not_space_units(1)
    unfolding s escape_html_Cons by (simp split: if_splits)
qed

lemma replace_global_head:
  assumes "s \<noteq> []" and "\<not> is_white_space (hd s)"
    and "\<And>g. repl g \<noteq> [] \<and> \<not> is_white_space (hd (repl g))"
  shows "replace_global m repl prev s \<noteq> [] \<and> \<not> is_white_space (hd (replace_global m repl prev s))"
proof -
  from assms(1) obtain c cs where s: "s = c # cs" by (cases s) auto
  show ?thesis
  proof (cases "m prev (c # cs)")
    case None
    with s assms(2) show ?thesis by simp
  next
    case (Some a)
    obtain g rest where a: "a = (g, rest)" by (cases a)
    from assms(3) [of g] Some a s show ?thesis
      by (simp del: last.simps take_Suc_Cons)
  qed
qed

lemma bold_head:
  assumes "s \<noteq> []" and "\<not> is_white_space (hd s)"
  shows "bold s \<noteq> [] \<and> \<not> is_white_space (hd (bold s))"
  unfolding bold_closed
proof (rule replace_global_head [OF assms])
  fix g
  show "js ''<strong>'' @ g @ js ''</strong>'' \<noteq> [] \<and>
        \<not> is_white_space (hd (js ''<strong>'' @ g @ js ''</strong>''))"
    using hd_tags(4) [of "g @ js ''</strong>''"] not_space_units(2) by simp
qed

lemma italic_head:
  assumes "s \<noteq> []" and "\<not> is_white_space (hd s)"
  shows "italic s \<noteq> [] \<and> \<not> is_white_space (hd (italic s))"
  unfolding italic_closed
proof (rule replace_global_head [OF assms])
  fix g
  show "js ''<em>'' @ g @ js ''</em>'' \<noteq> [] \<and>
        \<not> is_white_space (hd (js ''<em>'' @ g @ js ''</em>''))"
    using hd_tags(5) [of "g @ js ''</em>''"] not_space_units(2) by simp
qed

lemma inline_head:
  "s \<noteq> [] \<Longrightarrow> \<not> is_white_space (hd s) \<Longrightarrow> inline s \<noteq> [] \<and> \<not> is_white_space (hd (inline s))"
  unfolding inline_def using escape_html_head bold_head italic_head by blast

subsection \<open>The list patterns on a well-formed line\<close>

lemma span_units:
  "\<not> is_white_space HYPHEN" "\<not> is_white_space PERIOD" "\<not> is_digit PERIOD" "\<not> is_digit HYPHEN"
  "\<not> is_digit LT" "HYPHEN \<noteq> LT"
  by (simp_all add: char_defs)

lemma takeWhile_stop: "s \<noteq> [] \<Longrightarrow> \<not> P (hd s) \<Longrightarrow> takeWhile P (s @ t) = []"
  by (cases s) simp_all

lemma dropWhile_stop: "s \<noteq> [] \<Longrightarrow> \<not> P (hd s) \<Longrightarrow> dropWhile P (s @ t) = s @ t"
  by (cases s) simp_all

lemma line_span:
  assumes "lt_free r" and "rest' = [] \<or> (\<exists>rest. rest' = NEWLINE # rest)"
  shows "takeWhile (\<lambda>c. \<not> is_line_terminator c) (r @ rest') = r"
    and "dropWhile (\<lambda>c. \<not> is_line_terminator c) (r @ rest') = rest'"
proof -
  have r: "\<And>x. x \<in> set r \<Longrightarrow> \<not> is_line_terminator x" using assms(1) by (simp add: lt_free_def)
  have t: "takeWhile (\<lambda>c. \<not> is_line_terminator c) rest' = []"
    and d: "dropWhile (\<lambda>c. \<not> is_line_terminator c) rest' = rest'"
    using assms(2) by (auto simp: NEWLINE_terminator)
  show "takeWhile (\<lambda>c. \<not> is_line_terminator c) (r @ rest') = r"
    using takeWhile_append2 [of r "\<lambda>c. \<not> is_line_terminator c" rest', OF r] t by simp
  show "dropWhile (\<lambda>c. \<not> is_line_terminator c) (r @ rest') = rest'"
    using dropWhile_append2 [of r "\<lambda>c. \<not> is_line_terminator c" rest', OF r] d by simp
qed

lemma item_text_eval:
  assumes "g \<noteq> []" and "\<forall>c\<in>set g. is_white_space c"
    and "r \<noteq> []" and "\<not> is_white_space (hd r)" and "lt_free r"
    and "rest' = [] \<or> (\<exists>rest. rest' = NEWLINE # rest)"
  shows "item_text (g @ r @ rest') = Some (r, rest')"
proof -
  have g: "\<And>x. x \<in> set g \<Longrightarrow> is_white_space x" using assms(2) by simp
  have t: "takeWhile is_white_space (g @ r @ rest') = g"
    using takeWhile_append2 [of g is_white_space "r @ rest'", OF g]
      takeWhile_stop [of r is_white_space rest', OF assms(3,4)] by simp
  have d: "dropWhile is_white_space (g @ r @ rest') = r @ rest'"
    using dropWhile_append2 [of g is_white_space "r @ rest'", OF g]
      dropWhile_stop [of r is_white_space rest', OF assms(3,4)] by simp
  show ?thesis
    unfolding item_text_def t d Let_def using assms(1) line_span [OF assms(5,6)] by simp
qed

lemma match_bullet_eval:
  assumes "\<forall>c\<in>set i. is_white_space c"
    and "g \<noteq> []" and "\<forall>c\<in>set g. is_white_space c"
    and "r \<noteq> []" and "\<not> is_white_space (hd r)" and "lt_free r"
    and "rest' = [] \<or> (\<exists>rest. rest' = NEWLINE # rest)"
  shows "match_bullet None ((i @ HYPHEN # g @ r) @ rest') = Some (r, rest')"
proof -
  have i: "\<And>x. x \<in> set i \<Longrightarrow> is_white_space x" using assms(1) by simp
  have d: "dropWhile is_white_space ((i @ HYPHEN # g @ r) @ rest') = HYPHEN # g @ r @ rest'"
    using dropWhile_append2 [of i is_white_space "HYPHEN # g @ r @ rest'", OF i] span_units(1)
    by simp
  show ?thesis
    unfolding match_bullet_def d using item_text_eval [OF assms(2-7)]
    by (simp add: start_NEWLINE)
qed

lemma match_bullet_digits:
  assumes "\<forall>c\<in>set i. is_white_space c" and "ds \<noteq> []" and "\<forall>c\<in>set ds. is_digit c"
  shows "match_bullet None ((i @ ds @ t) @ rest') = None"
proof -
  have i: "\<And>x. x \<in> set i \<Longrightarrow> is_white_space x" using assms(1) by simp
  from assms(2) obtain d ds' where ds: "ds = d # ds'" by (cases ds) auto
  with assms(3) have "is_digit d" by simp
  then have n: "\<not> is_white_space d" "d \<noteq> HYPHEN" by (simp_all add: digit_units)
  have d: "dropWhile is_white_space ((i @ ds @ t) @ rest') = d # ds' @ t @ rest'"
    using dropWhile_append2 [of i is_white_space "ds @ t @ rest'", OF i] n(1) ds by simp
  show ?thesis unfolding match_bullet_def d using n(2) by simp
qed

lemma match_numbered_eval:
  assumes "\<forall>c\<in>set i. is_white_space c" and "ds \<noteq> []" and "\<forall>c\<in>set ds. is_digit c"
    and "g \<noteq> []" and "\<forall>c\<in>set g. is_white_space c"
    and "r \<noteq> []" and "\<not> is_white_space (hd r)" and "lt_free r"
    and "rest' = [] \<or> (\<exists>rest. rest' = NEWLINE # rest)"
  shows "match_numbered None ((i @ (ds @ [PERIOD]) @ g @ r) @ rest') = Some (r, rest')"
proof -
  have i: "\<And>x. x \<in> set i \<Longrightarrow> is_white_space x" using assms(1) by simp
  have ds: "\<And>x. x \<in> set ds \<Longrightarrow> is_digit x" using assms(3) by simp
  have "\<not> is_white_space (hd ds)" using assms(2,3) by (cases ds) (simp_all add: digit_units)
  then have d: "dropWhile is_white_space ((i @ (ds @ [PERIOD]) @ g @ r) @ rest') =
           ds @ PERIOD # g @ r @ rest'"
    using dropWhile_append2 [of i is_white_space "ds @ PERIOD # g @ r @ rest'", OF i]
      dropWhile_stop [of ds is_white_space "PERIOD # g @ r @ rest'", OF assms(2)] by simp
  have t: "takeWhile is_digit (ds @ PERIOD # g @ r @ rest') = ds"
    using takeWhile_append2 [of ds is_digit "PERIOD # g @ r @ rest'", OF ds] span_units(3) by simp
  have e: "dropWhile is_digit (ds @ PERIOD # g @ r @ rest') = PERIOD # g @ r @ rest'"
    using dropWhile_append2 [of ds is_digit "PERIOD # g @ r @ rest'", OF ds] span_units(3) by simp
  show ?thesis
    unfolding match_numbered_def d Let_def t e using assms(2) item_text_eval [OF assms(4-9)]
    by (simp add: start_NEWLINE)
qed

lemma match_numbered_element:
  "match_numbered None ((js ''<li>'' @ t) @ rest') = None"
proof -
  have e: "(js ''<li>'' @ t) @ rest' = LT # js ''li>'' @ t @ rest'" by (simp add: js_def LT_def)
  show ?thesis
    unfolding e match_numbered_def using not_space_units(2) span_units(5)
    by (simp add: Let_def)
qed

lemma anchored_matchers:
  "\<not> at_line_start prev \<Longrightarrow> match_bullet prev s = None"
  "\<not> at_line_start prev \<Longrightarrow> match_numbered prev s = None"
  "at_line_start prev \<Longrightarrow> match_bullet prev s = match_bullet None s"
  "at_line_start prev \<Longrightarrow> match_numbered prev s = match_numbered None s"
  by (simp_all add: match_bullet_def match_numbered_def start_NEWLINE)

subsection \<open>Texts made of item lines\<close>

lemma join_lines_map:
  assumes "f [] = []"
    and "\<And>x rest. Q x \<Longrightarrow> f (x @ NEWLINE # rest) = f x @ NEWLINE # f rest"
  shows "\<forall>l\<in>set ls. Q l \<Longrightarrow> f (join_lines ls) = join_lines (map f ls)"
proof (induction ls rule: join_lines.induct)
  case 1
  then show ?case by (simp add: assms(1))
next
  case (2 l)
  then show ?case by simp
next
  case (3 l l' ls)
  then show ?case by (simp add: assms(2))
qed

lemma escape_html_lines: "escape_html (join_lines ls) = join_lines (map escape_html ls)"
proof -
  have "escape_html (x @ NEWLINE # rest) = escape_html x @ NEWLINE # escape_html rest" for x rest
    by (simp add: escape_html_append escape_html_Cons char_defs)
  then show ?thesis
    using join_lines_map [of escape_html "\<lambda>x. True" ls] by (simp add: escape_html_Nil)
qed

lemma bold_lines: "\<forall>l\<in>set ls. lt_free l \<Longrightarrow> bold (join_lines ls) = join_lines (map bold ls)"
  by (rule join_lines_map [of bold lt_free]) (simp_all add: bold_Nil bold_line)

lemma italic_lines: "\<forall>l\<in>set ls. lt_free l \<Longrightarrow> italic (join_lines ls) = join_lines (map italic ls)"
  by (rule join_lines_map [of italic lt_free]) (simp_all add: italic_Nil italic_line)

lemma blank_units:
  assumes "blank c"
  shows "is_white_space c" "\<not> is_line_terminator c" "c \<noteq> AMP" "c \<noteq> LT" "c \<noteq> GT" "c \<noteq> STAR"
proof -
  from assms show w: "is_white_space c" and "\<not> is_line_terminator c" by (simp_all add: blank_def)
  from neutral_white_space [OF w] show "c \<noteq> AMP" "c \<noteq> LT" "c \<noteq> GT" by (simp_all add: neutral_def)
  have "\<not> is_white_space STAR" by (simp add: char_defs)
  with w show "c \<noteq> STAR" by auto
qed

lemma digit_plain:
  assumes "is_digit c"
  shows "\<not> is_line_terminator c" "c \<noteq> AMP" "c \<noteq> LT" "c \<noteq> GT" "c \<noteq> STAR"
proof -
  from digit_units(1) [OF assms] show "\<not> is_line_terminator c" by (auto simp: is_white_space_def)
  from neutral_digit [OF assms] show "c \<noteq> AMP" "c \<noteq> LT" "c \<noteq> GT" by (simp_all add: neutral_def)
  have "\<not> is_digit STAR" by (simp add: char_defs)
  with assms show "c \<noteq> STAR" by auto
qed

lemma mark_plain:
  "\<not> is_line_terminator HYPHEN" "HYPHEN \<noteq> AMP" "HYPHEN \<noteq> LT" "HYPHEN \<noteq> GT" "HYPHEN \<noteq> STAR"
  "\<not> is_line_terminator PERIOD" "PERIOD \<noteq> AMP" "PERIOD \<noteq> LT" "PERIOD \<noteq> GT" "PERIOD \<noteq> STAR"
  by (simp_all add: char_defs)

lemma item_prefix_unit:
  assumes "well_formed_item it" and "c \<in> set (item_prefix it)"
  shows "\<not> is_line_terminator c \<and> c \<noteq> STAR \<and> c \<noteq> AMP \<and> c \<noteq> LT \<and> c \<noteq> GT"
proof -
  from assms(1) have i: "\<forall>c\<in>set (indent it). blank c" and g: "\<forall>c\<in>set (gap it). blank c"
    by (simp_all add: well_formed_item_def list_all_iff)
  have m: "\<forall>c\<in>set (marker_text (marker it)). c = HYPHEN \<or> c = PERIOD \<or> is_digit c"
    using assms(1) by (cases "marker it") (auto simp: well_formed_item_def list_all_iff)
  from assms(2) i g m consider "blank c" | "c = HYPHEN" | "c = PERIOD" | "is_digit c"
    by (auto simp: item_prefix_def)
  then show ?thesis
  proof cases
    case 1
    then show ?thesis by (simp add: blank_units)
  next
    case 2
    then show ?thesis by (simp add: mark_plain)
  next
    case 3
    then show ?thesis by (simp add: mark_plain)
  next
    case 4
    then show ?thesis by (simp add: digit_plain)
  qed
qed

lemma item_prefix_plain:
  assumes "well_formed_item it"
  shows "lt_free (item_prefix it)" "STAR \<notin> set (item_prefix it)"
    "AMP \<notin> set (item_prefix it)" "LT \<notin> set (item_prefix it)" "GT \<notin> set (item_prefix it)"
proof -
  show "lt_free (item_prefix it)"
    unfolding lt_free_def using item_prefix_unit [OF assms] by blast
  show "STAR \<notin> set (item_prefix it)" using item_prefix_unit [OF assms, of STAR] by blast
  show "AMP \<notin> set (item_prefix it)" using item_prefix_unit [OF assms, of AMP] by blast
  show "LT \<notin> set (item_prefix it)" using item_prefix_unit [OF assms, of LT] by blast
  show "GT \<notin> set (item_prefix it)" using item_prefix_unit [OF assms, of GT] by blast
qed

lemma item_body:
  assumes "well_formed_item it"
  shows "inline (body it) \<noteq> []" "\<not> is_white_space (hd (inline (body it)))"
    "lt_free (inline (body it))" "lt_free (body it)"
proof -
  from assms have b: "body it \<noteq> []" "\<not> is_white_space (hd (body it))" and l: "lt_free (body it)"
    by (simp_all add: well_formed_item_def list_all_iff lt_free_def)
  from inline_head [OF b] show "inline (body it) \<noteq> []" "\<not> is_white_space (hd (inline (body it)))"
    by simp_all
  from l show "lt_free (inline (body it))" by (rule inline_lt_free)
  from l show "lt_free (body it)" .
qed

lemma inline_item_source:
  assumes "well_formed_item it"
  shows "italic (bold (escape_html (item_source it))) = item_prefix it @ inline (body it)"
proof -
  note p = item_prefix_plain [OF assms]
  have "escape_html (item_source it) = item_prefix it @ escape_html (body it)"
    by (simp add: item_source_def escape_html_append escape_html_plain p)
  then show ?thesis
    by (simp add: bold_skip italic_skip p inline_def)
qed

lemma inline_lines:
  assumes "\<forall>it\<in>set its. well_formed_item it"
  shows "italic (bold (escape_html (join_lines (map item_source its)))) =
         join_lines (map (\<lambda>it. item_prefix it @ inline (body it)) its)"
proof -
  have s: "\<forall>it\<in>set its. lt_free (item_source it)"
    using assms item_prefix_plain(1) item_body(4) by (simp add: item_source_def lt_free_append)
  then have 1: "\<forall>l\<in>set (map escape_html (map item_source its)). lt_free l"
    by (simp add: escape_html_lt_free)
  then have 2: "\<forall>l\<in>set (map bold (map escape_html (map item_source its))). lt_free l"
    by (simp add: bold_lt_free)
  have "italic (bold (escape_html (join_lines (map item_source its)))) =
        join_lines (map italic (map bold (map escape_html (map item_source its))))"
    by (simp only: escape_html_lines bold_lines [OF 1] italic_lines [OF 2])
  also have "\<dots> = join_lines (map (\<lambda>it. italic (bold (escape_html (item_source it)))) its)"
    by (simp add: comp_def)
  also have "\<dots> = join_lines (map (\<lambda>it. item_prefix it @ inline (body it)) its)"
    using assms by (simp add: inline_item_source cong: map_cong)
  finally show ?thesis .
qed

lemma item_spaces:
  assumes "well_formed_item it"
  shows "\<forall>c\<in>set (indent it). is_white_space c" "gap it \<noteq> []"
    "\<forall>c\<in>set (gap it). is_white_space c"
  using assms by (simp_all add: well_formed_item_def list_all_iff blank_def)

lemma item_element_plain:
  assumes "well_formed_item it"
  shows "item_element it \<noteq> []" "lt_free (item_element it)"
    "str_includes (item_element it) (js ''<li>'')"
proof -
  show "item_element it \<noteq> []" by (simp add: item_element_def js_def)
  show "lt_free (item_element it)"
    by (simp add: item_element_def lt_free_append lt_free_tags item_body(3) [OF assms])
  have "item_element it = LT # js ''li>'' @ inline (body it) @ js ''</li>''"
    by (simp add: item_element_def js_def LT_def)
  then show "str_includes (item_element it) (js ''<li>'')"
    by (simp add: js_def LT_def)
qed

lemma bullet_lines:
  assumes "\<forall>it\<in>set its. well_formed_item it" and "its \<noteq> []"
  shows "bullet_items (join_lines (map (\<lambda>it. item_prefix it @ inline (body it)) its)) =
         join_lines (map (\<lambda>it. case marker it of
                                 Bullet \<Rightarrow> item_element it
                               | Numbered ds \<Rightarrow> item_prefix it @ inline (body it)) its)"
  unfolding bullet_items_closed
proof (rule anchored_lines
    [where m = match_bullet and src = "\<lambda>it. item_prefix it @ inline (body it)"
       and repl = "\<lambda>g. js ''<li>'' @ g @ js ''</li>''"
       and out = "\<lambda>it. case marker it of Bullet \<Rightarrow> item_element it
                     | Numbered ds \<Rightarrow> item_prefix it @ inline (body it)",
     OF anchored_matchers(1) anchored_matchers(3) _ assms(2) start_NEWLINE(2)])
  let ?src = "\<lambda>it. item_prefix it @ inline (body it)"
  let ?out = "\<lambda>it. case marker it of Bullet \<Rightarrow> item_element it | Numbered ds \<Rightarrow> ?src it"
  let ?repl = "\<lambda>g. js ''<li>'' @ g @ js ''</li>''"
  show "\<forall>it\<in>set its. ?src it \<noteq> [] \<and> lt_free (?src it) \<and>
        (\<forall>rest'. rest' = [] \<or> (\<exists>rest. rest' = NEWLINE # rest) \<longrightarrow>
           (match_bullet None (?src it @ rest') = None \<and> ?out it = ?src it) \<or>
           (\<exists>g. match_bullet None (?src it @ rest') = Some (g, rest') \<and> ?out it = ?repl g))"
  proof (intro ballI conjI allI impI)
    fix it assume "it \<in> set its"
    with assms(1) have wf: "well_formed_item it" by simp
    note b = item_body [OF wf] and sp = item_spaces [OF wf]
    show "?src it \<noteq> []" using b(1) by simp
    show "lt_free (?src it)" using item_prefix_plain(1) [OF wf] b(3) by (simp add: lt_free_append)
    fix rest' assume r: "rest' = [] \<or> (\<exists>rest. rest' = NEWLINE # rest)"
    show "(match_bullet None (?src it @ rest') = None \<and> ?out it = ?src it) \<or>
          (\<exists>g. match_bullet None (?src it @ rest') = Some (g, rest') \<and> ?out it = ?repl g)"
    proof (cases "marker it")
      case Bullet
      from match_bullet_eval [OF sp(1) sp(2) sp(3) b(1) b(2) b(3) r] Bullet
      show ?thesis by (simp add: item_prefix_def item_element_def)
    next
      case (Numbered ds)
      with wf have ds: "ds \<noteq> []" "\<forall>c\<in>set ds. is_digit c"
        by (simp_all add: well_formed_item_def list_all_iff)
      from match_bullet_digits [OF sp(1) ds, of "[PERIOD] @ gap it @ inline (body it)" rest'] Numbered
      show ?thesis by (simp add: item_prefix_def)
    qed
  qed
qed

lemma numbered_lines:
  assumes "\<forall>it\<in>set its. well_formed_item it" and "its \<noteq> []"
  shows "numbered_items (join_lines (map (\<lambda>it. case marker it of
                                 Bullet \<Rightarrow> item_element it
                               | Numbered ds \<Rightarrow> item_prefix it @ inline (body it)) its)) =
         join_lines (map item_element its)"
  unfolding numbered_items_closed
proof (rule anchored_lines
    [where m = match_numbered and out = item_element
       and repl = "\<lambda>g. js ''<li>'' @ g @ js ''</li>''"
       and src = "\<lambda>it. case marker it of Bullet \<Rightarrow> item_element it
                     | Numbered ds \<Rightarrow> item_prefix it @ inline (body it)",
     OF anchored_matchers(2) anchored_matchers(4) _ assms(2) start_NEWLINE(2)])
  let ?src = "\<lambda>it. case marker it of Bullet \<Rightarrow> item_element it
                    | Numbered ds \<Rightarrow> item_prefix it @ inline (body it)"
  let ?repl = "\<lambda>g. js ''<li>'' @ g @ js ''</li>''"
  show "\<forall>it\<in>set its. ?src it \<noteq> [] \<and> lt_free (?src it) \<and>
        (\<forall>rest'. rest' = [] \<or> (\<exists>rest. rest' = NEWLINE # rest) \<longrightarrow>
           (match_numbered None (?src it @ rest') = None \<and> item_element it = ?src it) \<or>
           (\<exists>g. match_numbered None (?src it @ rest') = Some (g, rest') \<and>
                item_element it = ?repl g))"
  proof (intro ballI conjI allI impI)
    fix it assume "it \<in> set its"
    with assms(1) have wf: "well_formed_item it" by simp
    note b = item_body [OF wf] and sp = item_spaces [OF wf] and e = item_element_plain [OF wf]
    show "?src it \<noteq> []" using b(1) e(1) by (cases "marker it") simp_all
    show "lt_free (?src it)"
      using item_prefix_plain(1) [OF wf] b(3) e(2) by (cases "marker it") (simp_all add: lt_free_append)
    fix rest' assume r: "rest' = [] \<or> (\<exists>rest. rest' = NEWLINE # rest)"
    show "(match_numbered None (?src it @ rest') = None \<and> item_element it = ?src it) \<or>
          (\<exists>g. match_numbered None (?src it @ rest') = Some (g, rest') \<and>
               item_element it = ?repl g)"
    proof (cases "marker it")
      case Bullet
      from match_numbered_element [of "inline (body it) @ js ''</li>''" rest'] Bullet
      show ?thesis by (simp add: item_element_def)
    next
      case (Numbered ds)
      with wf have ds: "ds \<noteq> []" "\<forall>c\<in>set ds. is_digit c"
        by (simp_all add: well_formed_item_def list_all_iff)
      from match_numbered_eval [OF sp(1) ds sp(2) sp(3) b(1) b(2) b(3) r] Numbered
      show ?thesis by (simp add: item_prefix_def item_element_def)
    qed
  qed
qed

lemma split_lines_line: "NEWLINE \<notin> set l \<Longrightarrow> split_lines l = [l]"
  by (induction l) auto

lemma split_lines_first:
  "NEWLINE \<notin> set l \<Longrightarrow> split_lines (l @ NEWLINE # rest) = l # split_lines rest"
  by (induction l) auto

lemma split_join_lines:
  "ls \<noteq> [] \<Longrightarrow> \<forall>l\<in>set ls. NEWLINE \<notin> set l \<Longrightarrow> split_lines (join_lines ls) = ls"
proof (induction ls rule: join_lines.induct)
  case 1
  then show ?case by simp
next
  case (2 l)
  then show ?case by (simp add: split_lines_line)
next
  case (3 l l' ls)
  then show ?case by (simp add: split_lines_first)
qed

lemma lt_free_NEWLINE: "lt_free l \<Longrightarrow> NEWLINE \<notin> set l"
  using NEWLINE_terminator(1) by (auto simp: lt_free_def)

text \<open>
  Where every line has an item text: for every input made of one or more lines joined by
  line feeds, each of them blanks, a list marker, at least one blank and a non-empty item
  text that starts with a code unit other than white space and holds no line terminator,
  the renderer produces one single list grouping with one list item per line, in order,
  holding the inline rendering of the item text. The line walk opens the grouping at the
  first list line and keeps it open over all list lines that follow.
\<close>

lemma item_lines_one_group:
  assumes "its \<noteq> []" and "\<forall>it\<in>set its. well_formed_item it"
  shows "parseMarkdown (join_lines (map item_source its)) =
           js ''<ul>'' @ concat (map item_element its) @ js ''</ul>''
       \<and> wrap_lines (map item_element its) =
           js ''<ul>'' @ concat (map item_element its) @ js ''</ul>''"
proof -
  let ?text = "join_lines (map item_source its)"
  from assms(1) obtain it its' where c: "its = it # its'" by (cases its) auto
  with assms(2) have "body it \<noteq> []" by (simp add: well_formed_item_def)
  then have "item_source it \<noteq> []" by (simp add: item_source_def)
  then have ne: "?text \<noteq> []" unfolding c by (cases its') simp_all
  have t: "numbered_items (bullet_items (italic (bold (escape_html ?text)))) =
           join_lines (map item_element its)"
    by (simp only: inline_lines [OF assms(2)] bullet_lines [OF assms(2,1)]
          numbered_lines [OF assms(2,1)])
  have n: "\<forall>l\<in>set (map item_element its). NEWLINE \<notin> set l"
    using assms(2) item_element_plain(2) lt_free_NEWLINE by auto
  have i: "\<forall>l\<in>set (map item_element its). str_includes l (js ''<li>'')"
    using assms(2) item_element_plain(3) by auto
  have "split_lines (join_lines (map item_element its)) = map item_element its"
    using assms(1) n by (simp add: split_join_lines)
  with ne t show ?thesis
    using wrap_items [OF i] assms(1) by (simp add: parseMarkdown_def)
qed

lemma item_lines_example:
  "parseMarkdown (js ''- one\<newline>- two'') = js ''<ul><li>one</li><li>two</li></ul>''"
proof -
  let ?one = "\<lparr>indent = [], marker = Bullet, gap = js '' '', body = js ''one''\<rparr>"
  let ?two = "\<lparr>indent = [], marker = Bullet, gap = js '' '', body = js ''two''\<rparr>"
  have w: "\<forall>it\<in>set [?one, ?two]. well_formed_item it"
    by (simp add: well_formed_item_def blank_def char_defs)
  have s: "join_lines (map item_source [?one, ?two]) = js ''- one\<newline>- two''"
    by (simp add: item_source_def item_prefix_def char_defs)
  have e: "concat (map item_element [?one, ?two]) = js ''<li>one</li><li>two</li>''"
    by (simp add: item_element_def inline_def render_defs char_defs)
  have "[?one, ?two] \<noteq> []" by simp
  from item_lines_one_group [OF this w]
  have "parseMarkdown (join_lines (map item_source [?one, ?two])) =
        js ''<ul>'' @ concat (map item_element [?one, ?two]) @ js ''</ul>''"
    by (rule conjunct1)
  then have "parseMarkdown (js ''- one\<newline>- two'') =
        js ''<ul>'' @ js ''<li>one</li><li>two</li>'' @ js ''</ul>''"
    unfolding s e .
  then show ?thesis by (simp add: js_def)
qed

subsection \<open>A marker line without item text\<close>

lemma trailing_empty_item:
  "parseMarkdown (js ''- one\<newline>- '') = js ''<ul><li>one</li><li></li></ul>''"
  by (simp add: render_defs char_defs)

lemma empty_numbered_item:
  "parseMarkdown (js ''1. \<newline>2. two'') = js ''<ul><li>2. two</li></ul>''"
  by (simp add: render_defs char_defs)

lemma empty_item_step:
  "bullet_items (js ''- \<newline>- two'') = js ''<li>- two</li>''"
  by (simp add: render_defs char_defs)

text \<open>
  C5: every input whose contiguous lines each carry a list-item marker is to become one
  single list grouping with one list item per line. The renderer does not do that for
  \<^verbatim>\<open>"- \n- two"\<close>, two marker lines of which the first has no item text: the \<^verbatim>\<open>\s+\<close> after
  the hyphen runs over the line feed, step 4 takes the whole second line, marker included,
  as the text of the one item, and the output is a grouping with the single item
  \<^verbatim>\<open>- two\<close>. The pattern is written for lines starting with \<^verbatim>\<open>- \<close>, and it does give a
  marker line without item text an item of its own when no line follows it.
\<close>

theorem empty_item_overrun:
  "parseMarkdown (js ''- \<newline>- two'') = js ''<ul><li>- two</li></ul>''
   \<and> parseMarkdown (js ''- \<newline>- two'') \<noteq> js ''<ul><li></li><li>two</li></ul>''
   \<and> bullet_items (js ''- \<newline>- two'') = js ''<li>- two</li>''
   \<and> parseMarkdown (js ''- one\<newline>- '') = js ''<ul><li>one</li><li></li></ul>''
   \<and> parseMarkdown (js ''1. \<newline>2. two'') = js ''<ul><li>2. two</li></ul>''"
proof -
  have a: "parseMarkdown (js ''- \<newline>- two'') = js ''<ul><li>- two</li></ul>''"
    by (simp add: render_defs char_defs)
  have "js ''<ul><li>- two</li></ul>'' \<noteq> js ''<ul><li></li><li>two</li></ul>''"
    by (simp add: js_def)
  with a show ?thesis
    by (simp only: trailing_empty_item empty_numbered_item empty_item_step) simp
qed

end
